theory Spec2Isabelle
  imports Complex_Main "HOL-Library.Word" "HOL-Library.Log_Nat"
begin

section \<open>Numbers and bytes\<close>

text \<open>
  A payload is a Node \<open>Buffer\<close>: a sequence of bytes.  A JavaScript number read from
  it by \<open>readFloatBE\<close> is the exact value of an IEEE-754 single, so it is a rational,
  an infinity (\<open>Infinity True\<close> is the negative one) or NaN.  The two zeros are
  identified: no comparison in the scripts tells them apart.
\<close>

type_synonym byte = "8 word"

datatype jsnumber = Num rat | Infinity bool | NaN

text \<open>
  \<open>buf.readFloatBE(i)\<close> for an offset with four bytes available: sign bit, eight
  exponent bits, 23 fraction bits, most significant byte first.  The decoders call it
  only at offsets \<open>i\<close> with \<open>i + 3 < length\<close>, where it cannot throw.
\<close>

definition float32_of_bits :: "nat \<Rightarrow> nat \<Rightarrow> nat \<Rightarrow> jsnumber" where
  "float32_of_bits s e m =
     (if e = 255 then (if m = 0 then Infinity (s = 1) else NaN)
      else let mag = (if e = 0 then of_nat m / 2 ^ 149
                      else if e < 150 then of_nat (2 ^ 23 + m) / 2 ^ (150 - e)
                      else of_nat (2 ^ 23 + m) * 2 ^ (e - 150))
           in Num (if s = 1 then - mag else mag))"

definition readFloatBE :: "byte list \<Rightarrow> nat \<Rightarrow> jsnumber" where
  "readFloatBE buf i =
     (let b0 = unat (buf ! i); b1 = unat (buf ! (i + 1));
          b2 = unat (buf ! (i + 2)); b3 = unat (buf ! (i + 3))
      in float32_of_bits (b0 div 128) ((b0 mod 128) * 2 + b1 div 128)
           ((b1 mod 128) * 65536 + b2 * 256 + b3))"

subsection \<open>Arithmetic in doubles and singles\<close>

text \<open>
  The scripts compute in IEEE-754 doubles, and a Max \<open>buffer~\<close> stores singles.  A
  finite double or single is a rational; every operation \<open>+\<close>, \<open>-\<close>, \<open>*\<close>, \<open>/\<close> of
  JavaScript returns the exact result rounded to the nearest double, a tie going to the
  even significand.  \<open>ilog2 x\<close> is the integer part of the binary logarithm of a positive
  \<open>x\<close>.  \<open>round_to p emin\<close> rounds to \<open>p\<close> significant bits with \<open>2 powi emin\<close> as the
  smallest unit in the last place (gradual underflow).  Results of magnitude \<open>2 ^ 1024\<close>
  and above (\<open>2 ^ 128\<close> for singles), which would be infinite, are outside these
  functions: no operation below produces one from samples, rates and lengths that are
  doubles themselves.
\<close>

definition ilog2 :: "rat \<Rightarrow> int" where
  "ilog2 x = (if 1 \<le> x then bitlen \<lfloor>x\<rfloor> - 1 else - bitlen (\<lceil>1 / x\<rceil> - 1))"

definition round_half_even :: "rat \<Rightarrow> int" where
  "round_half_even q =
     (let f = \<lfloor>q\<rfloor>; r = q - of_int f
      in if r < 1 / 2 then f else if 1 / 2 < r then f + 1 else if even f then f else f + 1)"

definition round_to :: "nat \<Rightarrow> int \<Rightarrow> rat \<Rightarrow> rat" where
  "round_to p emin x =
     (if x = 0 then 0
      else let u = max emin (ilog2 \<bar>x\<bar> - (int p - 1))
           in of_int (round_half_even (x / 2 powi u)) * 2 powi u)"

text \<open>Rounding to a double (binary64) and to a single (binary32).\<close>

definition fl :: "rat \<Rightarrow> rat" where
  "fl = round_to 53 (- 1074)"

definition fl32 :: "rat \<Rightarrow> rat" where
  "fl32 = round_to 24 (- 149)"

text \<open>\<open>Math.abs(value) < limit\<close>: false for NaN and for the infinities.\<close>

fun abs_less :: "jsnumber \<Rightarrow> rat \<Rightarrow> bool" where
  "abs_less (Num q) limit = (\<bar>q\<bar> < limit)"
| "abs_less (Infinity _) limit = False"
| "abs_less NaN limit = False"

section \<open>The matrix decoder (sRtin.js and UDPdown.js, convertMatrixToFloat32)\<close>

definition skipCount :: nat where
  "skipCount = 131 * 4"

text \<open>
  The loop \<open>for (let i = 0; i < matrixData.length - 3; i += 4)\<close> of both scripts, with
  the amplitude bound as a parameter (\<open>10\<close> in sRtin.js, \<open>1e+7\<close> in UDPdown.js).
  Offsets below \<open>skipCount\<close> are passed over; a value that fails the bound is not
  pushed and the loop goes on.  \<open>readFloatBE\<close> cannot throw at an offset that passed
  the loop test, so the \<open>catch\<close> branch is never taken.
\<close>

function decodeLoop :: "rat \<Rightarrow> byte list \<Rightarrow> nat \<Rightarrow> jsnumber list \<Rightarrow> jsnumber list" where
  "decodeLoop limit matrixData i floatData =
     (if int i < int (length matrixData) - 3 then
        (if i < skipCount then decodeLoop limit matrixData (i + 4) floatData
         else let v = readFloatBE matrixData i
              in if abs_less v limit
                 then decodeLoop limit matrixData (i + 4) (floatData @ [v])
                 else decodeLoop limit matrixData (i + 4) floatData)
      else floatData)"
  by pat_completeness auto
termination
  by (relation "measure (\<lambda>(limit, matrixData, i, floatData). length matrixData - i)") auto

declare decodeLoop.simps [simp del]

text \<open>sRtin.js, lines 172-193: the bound is \<open>Math.abs(value) < 10\<close>.\<close>

definition convertMatrixToFloat32 :: "byte list \<Rightarrow> jsnumber list" where
  "convertMatrixToFloat32 matrixData = decodeLoop 10 matrixData 0 []"

subsection \<open>UDPdown.js: the decoder with its continuity heuristic\<close>

text \<open>
  The module-level variables of UDPdown.js.  \<open>float_data_txt\<close> is the content of the
  diagnostic file, one decoded value per line; \<open>posts\<close> collects the \<open>Max.post\<close>
  messages; \<open>wavFiles\<close> the containers written (sample rate, channels, bit depth,
  16-bit samples); \<open>ffmpegJobs\<close> the conversions started by \<open>downsampleAudio\<close>;
  \<open>unhandled\<close> the \<open>error\<close> events emitted on a stream that has no listener for them.
\<close>

record wav_file =
  fileName :: string
  sampleRate :: nat
  channels :: nat
  bitDepth :: nat
  pcm :: "int list"

record udpdown =
  ud_recordingAudio :: "jsnumber list"
  ud_chunkCounter :: nat
  ud_lastValue :: "jsnumber option"
  ud_lastIndex :: "nat option"
  ud_float_data_txt :: "jsnumber list"
  ud_posts :: "string list"
  ud_wavFiles :: "wav_file list"
  ud_ffmpegJobs :: "(string \<times> string) list"
  ud_unhandled :: "string list"

text \<open>
  Lines 128-137: the comparison of the previous chunk's last value with the first value
  of this chunk.  Both branches of the test hold only commented-out posts, so the result
  is computed and dropped.
\<close>

fun discontinuity :: "jsnumber option \<Rightarrow> jsnumber list \<Rightarrow> bool" where
  "discontinuity (Some (Num l)) (Num c # _) = (\<bar>fl (l - c)\<bar> > fl (1 / 100))"
| "discontinuity _ _ = False"

text \<open>
  UDPdown.js, lines 101-149: the bound is \<open>1e+7\<close>; \<open>lastValue\<close> and \<open>lastIndex\<close> are
  updated from a non-empty result whose last value is below \<open>1e+20\<close>.
\<close>

definition convertMatrixToFloat32_UDPdown :: "udpdown \<Rightarrow> byte list \<Rightarrow> jsnumber list \<times> udpdown" where
  "convertMatrixToFloat32_UDPdown st matrixData =
     (let floatData = decodeLoop (10 ^ 7) matrixData 0 [];
          st1 = (if discontinuity (ud_lastValue st) floatData then st else st);
          st2 = (if floatData \<noteq> [] \<and> abs_less (last floatData) (10 ^ 20)
                 then st1\<lparr>ud_lastValue := Some (last floatData),
                          ud_lastIndex := Some (length floatData - 1)\<rparr>
                 else st1)
      in (floatData, st2))"

text \<open>
  UDPdown.js, lines 68-89: the \<open>message\<close> handler.  Nothing follows the early
  \<open>return\<close> for an empty result.
\<close>

definition onMessage_UDPdown :: "udpdown \<Rightarrow> byte list \<Rightarrow> udpdown" where
  "onMessage_UDPdown st data =
     (case convertMatrixToFloat32_UDPdown st data of
        (floatData, st1) \<Rightarrow>
          if length floatData = 0 then st1
          else st1\<lparr>ud_recordingAudio := ud_recordingAudio st1 @ floatData,
                   ud_float_data_txt := ud_float_data_txt st1 @ floatData,
                   ud_chunkCounter := ud_chunkCounter st1 + 1\<rparr>)"

subsection \<open>UDPdown.js: saving a recording\<close>

text \<open>
  \<open>Math.round\<close> rounds a half towards plus infinity.  The conversion of one
  normalised sample is \<open>Math.max(-32768, Math.min(32767, Math.round(s * 32767)))\<close>;
  NaN goes through \<open>Math.min\<close> and \<open>Math.max\<close> unchanged and an \<open>Int16Array\<close>
  stores it as 0.
\<close>

definition math_round :: "rat \<Rightarrow> int" where
  "math_round x = \<lfloor>x + 1 / 2\<rfloor>"

fun sampleToInt16 :: "jsnumber \<Rightarrow> int" where
  "sampleToInt16 (Num q) = max (- 32768) (min 32767 (math_round (fl (q * 32767))))"
| "sampleToInt16 (Infinity neg) = (if neg then - 32768 else 32767)"
| "sampleToInt16 NaN = 0"


definition INPUT_SAMPLE_RATE :: nat where "INPUT_SAMPLE_RATE = 44100"
definition TARGET_SAMPLE_RATE :: nat where "TARGET_SAMPLE_RATE = 16000"


text \<open>
  UDPdown.js, lines 207-221.  \<open>saveAudioFile\<close> never rejects, so the two statements
  after the \<open>await\<close> run whatever the outcome was.
\<close>

definition startRecording_UDPdown :: "udpdown \<Rightarrow> udpdown" where
  "startRecording_UDPdown st =
     st\<lparr>ud_recordingAudio := [], ud_posts := ud_posts st @ [''Recording started.'']\<rparr>"


section \<open>sRtin.js: conversion, resampling and the recogniser feed\<close>

text \<open>sRtin.js, lines 195-201.\<close>

definition convertFloat32ToInt16 :: "jsnumber list \<Rightarrow> int list" where
  "convertFloat32ToInt16 float32Array = map sampleToInt16 float32Array"

text \<open>Storing a number into an \<open>Int16Array\<close> keeps its low 16 bits, read as signed.\<close>

definition toInt16 :: "int \<Rightarrow> int" where
  "toInt16 x = (x + 32768) mod 65536 - 32768"

text \<open>
  sRtin.js, lines 248-258: the body of the loop of \<open>downsampleAudio\<close> for output index
  \<open>i\<close>, every operation rounded to a double; \<open>Math.floor\<close> and \<open>Math.round\<close> are
  exact.  The samples are integers that a double holds exactly (the handler passes
  16-bit values).  Reading \<open>audioData[index]\<close> past the end gives \<open>undefined\<close>, which
  the \<open>Int16Array\<close> stores as 0.
\<close>

definition downsampleAt :: "int list \<Rightarrow> rat \<Rightarrow> nat \<Rightarrow> int" where
  "downsampleAt audioData sampleRateRatio i =
     (let position = fl (of_nat i * sampleRateRatio);
          index = nat \<lfloor>position\<rfloor>;
          fraction = fl (position - of_nat index)
      in if index + 1 < length audioData
         then toInt16 (math_round (fl (fl (of_int (audioData ! index) * fl (1 - fraction))
                                       + fl (of_int (audioData ! (index + 1)) * fraction))))
         else if index < length audioData then toInt16 (audioData ! index) else 0)"

datatype jserror = RangeError

text \<open>
  sRtin.js, lines 243-261, for rates that are integers a double holds exactly and an
  array of fewer than \<open>2 ^ 53\<close> elements.  With a zero target rate the ratio is infinite
  or NaN and the new length is 0; with a ratio of zero and a non-empty input the new
  length is infinite and \<open>new Int16Array\<close> throws.  An allocation that fails because
  the new length is too large for the engine is outside the model.  The function
  keeps nothing between calls: it reads its three arguments and no variable of the
  module.
\<close>

definition downsampleAudio :: "int list \<Rightarrow> nat \<Rightarrow> nat \<Rightarrow> jserror + int list" where
  "downsampleAudio audioData fromSampleRate toSampleRate =
     (if toSampleRate = 0 then Inr []
      else let sampleRateRatio = fl (of_nat fromSampleRate / of_nat toSampleRate)
           in if sampleRateRatio = 0
              then (if audioData = [] then Inr [] else Inl RangeError)
              else let newLength =
                         nat (math_round (fl (of_nat (length audioData) / sampleRateRatio)))
                   in Inr (map (downsampleAt audioData sampleRateRatio) [0..<newLength]))"

text \<open>
  The module-level variables of sRtin.js.  \<open>acceptWaveform\<close> lists the arrays handed
  to the recogniser by \<open>processAudioWithVosk\<close>, in call order; what the recogniser
  answers is outside the script.
\<close>

record srtin =
  audioBuffer :: "int list"
  isRecording :: bool
  recordingAudio :: "int list"
  acceptWaveform :: "int list list"
  posts :: "string list"
  wavFiles :: "wav_file list"
  unhandled :: "string list"

text \<open>
  sRtin.js, lines 120-131: the \<open>while\<close> loop of the \<open>message\<close> handler.  An exception
  of \<open>downsampleAudio\<close> would leave the handler with the slice already removed.
\<close>

function frameLoop :: "srtin \<Rightarrow> srtin" where
  "frameLoop st =
     (if length (audioBuffer st) \<ge> TARGET_SAMPLE_RATE then
        (let chunk = take TARGET_SAMPLE_RATE (audioBuffer st);
             st1 = st\<lparr>audioBuffer := drop TARGET_SAMPLE_RATE (audioBuffer st)\<rparr>
         in case downsampleAudio chunk INPUT_SAMPLE_RATE TARGET_SAMPLE_RATE of
              Inl e \<Rightarrow> st1
            | Inr downsampledData \<Rightarrow>
                frameLoop
                  ((if isRecording st1
                    then st1\<lparr>recordingAudio := recordingAudio st1 @ downsampledData\<rparr>
                    else st1)
                   \<lparr>acceptWaveform := acceptWaveform st1 @ [downsampledData]\<rparr>))
      else st)"
  by pat_completeness auto
termination
  by (relation "measure (\<lambda>st. length (audioBuffer st))")
     (auto simp: TARGET_SAMPLE_RATE_def)

declare frameLoop.simps [simp del]

text \<open>Lines 117-131: what the handler does with a non-empty decoded chunk.\<close>

definition pushSamples :: "srtin \<Rightarrow> int list \<Rightarrow> srtin" where
  "pushSamples st int16Data = frameLoop (st\<lparr>audioBuffer := audioBuffer st @ int16Data\<rparr>)"

text \<open>sRtin.js, lines 113-132: the \<open>message\<close> handler.\<close>

definition onMessage :: "srtin \<Rightarrow> byte list \<Rightarrow> srtin" where
  "onMessage st data =
     (let floatData = convertMatrixToFloat32 data
      in if length floatData = 0 then st
         else pushSamples st (convertFloat32ToInt16 floatData))"


text \<open>sRtin.js, lines 356-381.\<close>

definition startRecording :: "srtin \<Rightarrow> srtin" where
  "startRecording st =
     (if \<not> isRecording st
      then st\<lparr>isRecording := True, recordingAudio := [],
              posts := posts st @ [''Recording started.'']\<rparr>
      else st\<lparr>posts := posts st @ [''Already recording.'']\<rparr>)"


section \<open>writetobuf.js: the two playback buffers\<close>

text \<open>
  A Max \<open>buffer~\<close> as the script sees it through the \<open>Buffer\<close> object: a channel
  count, a frame count and one sample per channel (from 1) and frame (from 0).  A
  \<open>buffer~\<close> holds singles: \<open>poke\<close> rounds the double it is given to a single, and
  \<open>peek\<close> returns the single as it is.  A \<open>peek\<close> outside the buffer reads 0 and a
  \<open>poke\<close> outside it stores nothing.
\<close>

record buffer =
  channelcount :: nat
  framecount :: nat
  samples :: "nat \<Rightarrow> nat \<Rightarrow> rat"

definition inside :: "buffer \<Rightarrow> nat \<Rightarrow> int \<Rightarrow> bool" where
  "inside b channel frame =
     (1 \<le> channel \<and> channel \<le> channelcount b \<and> 0 \<le> frame \<and> frame < int (framecount b))"

definition peek :: "buffer \<Rightarrow> nat \<Rightarrow> int \<Rightarrow> rat" where
  "peek b channel frame = (if inside b channel frame then samples b channel (nat frame) else 0)"

definition poke :: "buffer \<Rightarrow> nat \<Rightarrow> int \<Rightarrow> rat \<Rightarrow> buffer" where
  "poke b channel frame v =
     (if inside b channel frame
      then b\<lparr>samples := (samples b)(channel := (samples b channel)(nat frame := fl32 v))\<rparr>
      else b)"

definition clear :: "buffer \<Rightarrow> buffer" where
  "clear b = b\<lparr>samples := (\<lambda>channel frame. 0)\<rparr>"

text \<open>
  The global variables of the script.  \<open>activeBuffer\<close> and \<open>inactiveBuffer\<close> are
  references to the two \<open>Buffer\<close> objects, so they are names into the store
  \<open>buffers\<close>.  \<open>scheduled\<close> holds the delays of the \<open>Task\<close>s that were scheduled
  and have not run yet, oldest first; every task runs \<open>clearInactiveBuffer\<close>.
  \<open>posted\<close> collects the messages of \<open>post\<close>, without their line ends.
\<close>

datatype bufname = UDPbuf | UDPbuf2

record writetobuf =
  buffers :: "bufname \<Rightarrow> buffer"
  activeBuffer :: bufname
  inactiveBuffer :: bufname
  clipStart1 :: nat
  chunkSize :: nat
  switchDelay :: nat
  scheduled :: "nat list"
  posted :: "string list"

text \<open>
  writetobuf.js, lines 100-102: the \<open>poke\<close> calls of one \<open>writeAudioChunk\<close>, frame
  and sample, in the order the loop makes them.
\<close>

definition pokeCalls :: "nat \<Rightarrow> rat list \<Rightarrow> (int \<times> rat) list" where
  "pokeCalls start audioData =
     map (\<lambda>i. (int (start + i), audioData ! i)) [0..<length audioData]"

text \<open>writetobuf.js, lines 86-110.\<close>

definition writeAudioChunk :: "writetobuf \<Rightarrow> rat list \<Rightarrow> writetobuf" where
  "writeAudioChunk st audioData =
     (let b = buffers st (activeBuffer st); numSamples = length audioData
      in if framecount b = 0
         then st\<lparr>posted := posted st @ [''Active buffer not initialized or is empty.'']\<rparr>
         else if framecount b < numSamples
         then st\<lparr>posted := posted st @ [''Active buffer is too small for the incoming data. Resize the buffer~ or reduce the data size.'']\<rparr>
         else let b1 = foldl (\<lambda>b (frame, v). poke b 1 frame v) b
                         (pokeCalls (clipStart1 st) audioData);
                  c = clipStart1 st + numSamples
              in st\<lparr>buffers := (buffers st)(activeBuffer st := b1),
                     clipStart1 := (if c \<ge> framecount b then 0 else c)\<rparr>)"

text \<open>writetobuf.js, line 47: the script never assigns \<open>fadeLength\<close> again.\<close>

definition fadeLength :: nat where
  "fadeLength = 441"

text \<open>writetobuf.js, line 141: the subtraction is exact, the division is rounded.\<close>

definition fadeOutFactor :: "nat \<Rightarrow> rat" where
  "fadeOutFactor i = fl ((of_nat fadeLength - of_nat i) / of_nat fadeLength)"

text \<open>Lines 141-144: one step of the inner loop of \<open>applyFadeOut\<close>.\<close>

definition fadeStep :: "nat \<Rightarrow> buffer \<Rightarrow> nat \<Rightarrow> buffer" where
  "fadeStep channel b i =
     (let frame = int (framecount b) - int fadeLength + int i;
          sample = peek b channel frame
      in poke b channel frame (fl (sample * fadeOutFactor i)))"

text \<open>writetobuf.js, lines 135-148.\<close>

definition applyFadeOut :: "writetobuf \<Rightarrow> writetobuf" where
  "applyFadeOut st =
     (let b = buffers st (activeBuffer st);
          b1 = foldl (\<lambda>b channel. foldl (fadeStep channel) b [0..<fadeLength])
                 b [1..<channelcount b + 1]
      in st\<lparr>buffers := (buffers st)(activeBuffer st := b1),
             posted := posted st @ [''Applied fade out to active buffer.'']\<rparr>)"

text \<open>writetobuf.js, lines 127-133; \<open>buffer1\<close> is \<open>UDPbuf\<close>.\<close>

definition switchBuffer :: "writetobuf \<Rightarrow> writetobuf" where
  "switchBuffer st =
     (let tempBuffer = activeBuffer st;
          st1 = st\<lparr>activeBuffer := inactiveBuffer st, inactiveBuffer := tempBuffer\<rparr>
      in st1\<lparr>posted := posted st1 @
           [''Switched to '' @ (if activeBuffer st1 = UDPbuf then ''UDPbuf'' else ''UDPbuf2'') @ ''.'']\<rparr>)"

text \<open>writetobuf.js, lines 121-125.\<close>

definition clearInactiveBuffer :: "writetobuf \<Rightarrow> writetobuf" where
  "clearInactiveBuffer st =
     st\<lparr>buffers := (buffers st)(inactiveBuffer st := clear (buffers st (inactiveBuffer st))),
        clipStart1 := 0,
        posted := posted st @ [''Inactive buffer cleared after delay.'']\<rparr>"

text \<open>
  writetobuf.js, lines 112-119.  The \<open>Task\<close> is created in a local variable and
  scheduled; the script keeps no handle to it and calls \<open>cancel\<close> nowhere.
\<close>

definition clearBuffer :: "writetobuf \<Rightarrow> writetobuf" where
  "clearBuffer st =
     (let st1 = applyFadeOut st;
          st2 = switchBuffer st1
      in st2\<lparr>scheduled := scheduled st2 @ [switchDelay st2]\<rparr>)"

text \<open>
  The scheduler runs the oldest task that is due: all tasks are scheduled with the same
  delay, so they run in the order they were scheduled.
\<close>

definition runTask :: "writetobuf \<Rightarrow> writetobuf" where
  "runTask st =
     (case scheduled st of
        [] \<Rightarrow> st
      | d # ds \<Rightarrow> clearInactiveBuffer (st\<lparr>scheduled := ds\<rparr>))"

text \<open>The script as loaded (lines 38-46), over two buffers of the patch.\<close>

definition initial :: "buffer \<Rightarrow> buffer \<Rightarrow> writetobuf" where
  "initial b1 b2 =
     \<lparr>buffers = (\<lambda>n. case n of UDPbuf \<Rightarrow> b1 | UDPbuf2 \<Rightarrow> b2),
      activeBuffer = UDPbuf, inactiveBuffer = UDPbuf2, clipStart1 = 0, chunkSize = 128,
      switchDelay = 20, scheduled = [], posted = []\<rparr>"

section \<open>Notions used to state the properties of sRtin.js\<close>

text \<open>
  The output of consecutive \<open>downsampleAudio\<close> calls on the chunks of a list, one call
  per chunk, joined in call order; an exception of one call ends the run.
\<close>

fun resampleChunks :: "int list list \<Rightarrow> nat \<Rightarrow> nat \<Rightarrow> jserror + int list" where
  "resampleChunks [] fromSampleRate toSampleRate = Inr []"
| "resampleChunks (chunk # chunks) fromSampleRate toSampleRate =
     (case downsampleAudio chunk fromSampleRate toSampleRate of
        Inl e \<Rightarrow> Inl e
      | Inr ys \<Rightarrow>
          (case resampleChunks chunks fromSampleRate toSampleRate of
             Inl e \<Rightarrow> Inl e
           | Inr zs \<Rightarrow> Inr (ys @ zs)))"

text \<open>
  The \<open>j\<close>-th slice of \<open>TARGET_SAMPLE_RATE\<close> samples of a stream, and the array that
  \<open>downsampleAudio\<close> returns for a chunk at the rates of the handler.
\<close>

definition frameAt :: "int list \<Rightarrow> nat \<Rightarrow> int list" where
  "frameAt stream j = take TARGET_SAMPLE_RATE (drop (j * TARGET_SAMPLE_RATE) stream)"

definition resampled :: "int list \<Rightarrow> int list" where
  "resampled chunk =
     (case downsampleAudio chunk INPUT_SAMPLE_RATE TARGET_SAMPLE_RATE of
        Inr ys \<Rightarrow> ys | Inl e \<Rightarrow> [])"

text \<open>
  The value of \<open>sampleRateRatio\<close> (line 244) in the one call of \<open>downsampleAudio\<close> that
  the script makes (line 125): the double nearest to 44100 / 16000.
\<close>

definition handlerRatio :: rat where
  "handlerRatio = fl (of_nat INPUT_SAMPLE_RATE / of_nat TARGET_SAMPLE_RATE)"

section \<open>Concrete inputs\<close>

text \<open>
  A payload of 534 bytes: a header of 524 zero bytes, the singles 1 and -0.5, and two
  stray bytes.
\<close>

definition examplePayload :: "byte list" where
  "examplePayload = replicate 524 0 @ [0x3F, 0x80, 0, 0, 0xBF, 0, 0, 0, 1, 2]"

text \<open>A payload whose two groups hold plus infinity and a NaN.\<close>

definition silentPayload :: "byte list" where
  "silentPayload = replicate 524 0 @ [0x7F, 0x80, 0, 0, 0x7F, 0xC0, 0, 0]"

text \<open>States of the two Node scripts in the middle of a recording.\<close>

definition udpdownExample :: udpdown where
  "udpdownExample =
     \<lparr>ud_recordingAudio = [Num (1 / 2), Num (- (1 / 4))], ud_chunkCounter = 1,
      ud_lastValue = Some (Num (- (1 / 4))), ud_lastIndex = Some 1,
      ud_float_data_txt = [Num (1 / 2), Num (- (1 / 4))], ud_posts = [],
      ud_wavFiles = [], ud_ffmpegJobs = [], ud_unhandled = []\<rparr>"

definition srtinExample :: srtin where
  "srtinExample =
     \<lparr>audioBuffer = [16384, - 8192], isRecording = True, recordingAudio = [100, 200, 300],
      acceptWaveform = [], posts = [''Recording started.''], wavFiles = [],
      unhandled = []\<rparr>"

text \<open>The buffer script over two silent one-channel buffers of four frames.\<close>

definition smallBuffer :: buffer where
  "smallBuffer = \<lparr>channelcount = 1, framecount = 4, samples = (\<lambda>channel frame. 0)\<rparr>"

definition exampleWriter :: writetobuf where
  "exampleWriter = initial smallBuffer smallBuffer"





text \<open>sRtin.js as loaded (lines 51-56), not recording.\<close>

definition freshSrtin :: srtin where
  "freshSrtin =
     \<lparr>audioBuffer = [], isRecording = False, recordingAudio = [], acceptWaveform = [],
      posts = [], wavFiles = [], unhandled = []\<rparr>"

section \<open>Rounding: bounds, evaluation and exactness\<close>

lemma ilog2_bounds:
  assumes "0 < x"
  shows "2 powi ilog2 x \<le> x" and "x < 2 powi (ilog2 x + 1)"
proof -
  have "2 powi ilog2 x \<le> x \<and> x < 2 powi (ilog2 x + 1)"
  proof (cases "1 \<le> x")
    case True
    let ?k = "\<lfloor>x\<rfloor>"
    from True have k: "0 < ?k" by simp
    from bitlen_bounds [OF k] have lo: "2 ^ nat (bitlen ?k - 1) \<le> ?k" and hi: "?k < 2 ^ nat (bitlen ?k)"
      by simp_all
    from k have b: "1 \<le> bitlen ?k" by (simp add: bitlen_alt_def)
    have "(2::rat) powi (bitlen ?k - 1) = of_int (2 ^ nat (bitlen ?k - 1))"
      using b by (simp add: power_int_nonneg_exp)
    also have "\<dots> \<le> of_int ?k" using lo by (simp only: of_int_le_iff)
    also have "\<dots> \<le> x" by simp
    finally have A: "2 powi (bitlen ?k - 1) \<le> x" .
    from hi have "?k + 1 \<le> 2 ^ nat (bitlen ?k)" by simp
    then have "(of_int (?k + 1) :: rat) \<le> of_int (2 ^ nat (bitlen ?k))" by (simp only: of_int_le_iff)
    moreover have "x < of_int (?k + 1)" by linarith
    ultimately have "x < of_int (2 ^ nat (bitlen ?k))" by linarith
    also have "\<dots> = 2 powi (bitlen ?k)" using b by (simp add: power_int_nonneg_exp)
    finally have B: "x < 2 powi (bitlen ?k - 1 + 1)" by simp
    from A B True show ?thesis by (simp add: ilog2_def)
  next
    case False
    let ?j = "\<lceil>1 / x\<rceil> - 1"
    from False assms have "1 < 1 / x" by (simp add: field_simps)
    then have j: "0 < ?j" by linarith
    from bitlen_bounds [OF j] have lo: "2 ^ nat (bitlen ?j - 1) \<le> ?j" and hi: "?j < 2 ^ nat (bitlen ?j)"
      by simp_all
    from j have b: "1 \<le> bitlen ?j" by (simp add: bitlen_alt_def)
    have jx: "of_int ?j < 1 / x" by linarith
    from hi have "?j + 1 \<le> 2 ^ nat (bitlen ?j)" by simp
    then have "(of_int (?j + 1) :: rat) \<le> of_int (2 ^ nat (bitlen ?j))" by (simp only: of_int_le_iff)
    moreover have "1 / x \<le> of_int (?j + 1)" by simp
    ultimately have "1 / x \<le> of_int (2 ^ nat (bitlen ?j))" by (rule order_trans [rotated])
    then have "1 / x \<le> 2 ^ nat (bitlen ?j)" by simp
    then have "1 / 2 ^ nat (bitlen ?j) \<le> x"
      using assms by (simp add: field_simps)
    moreover have "(2::rat) powi (- bitlen ?j) = 1 / 2 ^ nat (bitlen ?j)"
      using b by (simp add: power_int_minus_divide power_int_nonneg_exp)
    ultimately have A: "2 powi (- bitlen ?j) \<le> x" by simp
    have "(of_int (2 ^ nat (bitlen ?j - 1)) :: rat) \<le> of_int ?j" using lo by (simp only: of_int_le_iff)
    with jx have "2 ^ nat (bitlen ?j - 1) < 1 / x" by simp
    then have "x < 1 / 2 ^ nat (bitlen ?j - 1)"
      using assms by (simp add: field_simps)
    moreover have "(2::rat) powi (- bitlen ?j + 1) = 1 / 2 ^ nat (bitlen ?j - 1)"
    proof -
      have "- bitlen ?j + 1 = - (bitlen ?j - 1)" by simp
      then show ?thesis using b by (simp only: power_int_minus_divide) (simp add: power_int_nonneg_exp)
    qed
    ultimately have B: "x < 2 powi (- bitlen ?j + 1)" by simp
    from A B False show ?thesis by (simp add: ilog2_def)
  qed
  then show "2 powi ilog2 x \<le> x" and "x < 2 powi (ilog2 x + 1)" by simp_all
qed


lemma pow2_less_exp: "(2::rat) powi a < 2 powi b \<Longrightarrow> a < b"
proof (rule ccontr)
  assume "2 powi a < (2::rat) powi b" "\<not> a < b"
  then have "(2::rat) powi b \<le> 2 powi a" by (intro power_int_increasing) simp_all
  with \<open>2 powi a < (2::rat) powi b\<close> show False by simp
qed

lemma ilog2_unique:
  assumes "2 powi e \<le> x" "x < 2 powi (e + 1)"
  shows "ilog2 x = e"
proof -
  have pos: "0 < x" using assms(1) by (rule less_le_trans [rotated]) simp
  from ilog2_bounds [OF pos] assms
  have a: "(2::rat) powi ilog2 x < 2 powi (e + 1)" and b: "(2::rat) powi e < 2 powi (ilog2 x + 1)"
    by linarith+
  from pow2_less_exp [OF a] pow2_less_exp [OF b] show ?thesis by simp
qed

lemma round_half_even_error: "\<bar>of_int (round_half_even q) - q\<bar> \<le> 1 / 2"
proof -
  have "of_int \<lfloor>q\<rfloor> \<le> q" "q < of_int \<lfloor>q\<rfloor> + 1" by linarith+
  then show ?thesis
    by (auto simp: round_half_even_def Let_def abs_le_iff)
qed

lemma round_half_even_int [simp]: "round_half_even (of_int k) = k"
  by (simp add: round_half_even_def)

lemma round_to_error:
  "\<bar>round_to p emin x - x\<bar> \<le> \<bar>x\<bar> * 2 powi (- int p) + 2 powi (emin - 1)"
proof (cases "x = 0")
  case True
  then show ?thesis by (simp add: round_to_def)
next
  case False
  define u where "u = max emin (ilog2 \<bar>x\<bar> - (int p - 1))"
  have pu: "(0::rat) < 2 powi u" by simp
  have r: "round_to p emin x = of_int (round_half_even (x / 2 powi u)) * 2 powi u"
    using False by (simp add: round_to_def u_def Let_def)
  have "\<bar>round_to p emin x - x\<bar>
      = \<bar>of_int (round_half_even (x / 2 powi u)) - x / 2 powi u\<bar> * 2 powi u"
  proof -
    have "round_to p emin x - x
        = (of_int (round_half_even (x / 2 powi u)) - x / 2 powi u) * 2 powi u"
      unfolding r by (simp add: algebra_simps)
    then show ?thesis by (simp add: abs_mult)
  qed
  also have "\<dots> \<le> 1 / 2 * 2 powi u"
    using round_half_even_error [of "x / 2 powi u"] pu by (intro mult_right_mono) simp_all
  also have "\<dots> = 2 powi (u - 1)"
    by (simp add: power_int_diff)
  also have "\<dots> \<le> \<bar>x\<bar> * 2 powi (- int p) + 2 powi (emin - 1)"
  proof (cases "emin \<le> ilog2 \<bar>x\<bar> - (int p - 1)")
    case True
    then have "u - 1 = ilog2 \<bar>x\<bar> + (- int p)" by (simp add: u_def)
    then have "(2::rat) powi (u - 1) = 2 powi ilog2 \<bar>x\<bar> * 2 powi (- int p)"
      by (simp add: power_int_diff power_int_minus_divide)
    also have "\<dots> \<le> \<bar>x\<bar> * 2 powi (- int p)"
      using ilog2_bounds(1) [of "\<bar>x\<bar>"] False by (intro mult_right_mono) simp_all
    finally show ?thesis by (simp add: add_increasing2)
  next
    case False
    then have "u = emin" by (simp add: u_def)
    then show ?thesis by (simp add: add_increasing)
  qed
  finally show ?thesis .
qed

lemma round_to_eval:
  assumes "2 powi (u + int p - 1) \<le> \<bar>x\<bar>" "\<bar>x\<bar> < 2 powi (u + int p)" "emin \<le> u"
  shows "round_to p emin x = of_int (round_half_even (x / 2 powi u)) * 2 powi u"
proof -
  have "(0::rat) < 2 powi (u + int p - 1)" by simp
  then have "0 < \<bar>x\<bar>" using assms(1) by (rule less_le_trans)
  then have nz: "x \<noteq> 0" by simp
  have "ilog2 \<bar>x\<bar> = u + int p - 1"
    using assms(1,2) by (intro ilog2_unique) simp_all
  then have "max emin (ilog2 \<bar>x\<bar> - (int p - 1)) = u" using assms(3) by simp
  then show ?thesis using nz by (simp add: round_to_def Let_def)
qed

lemma round_to_exact:
  assumes "\<bar>k\<bar> < 2 ^ p" "emin \<le> w"
  shows "round_to p emin (of_int k * 2 powi w) = of_int k * 2 powi w"
proof (cases "k = 0")
  case True
  then show ?thesis by (simp add: round_to_def)
next
  case False
  let ?x = "of_int k * 2 powi w :: rat"
  define u where "u = max emin (ilog2 \<bar>?x\<bar> - (int p - 1))"
  have nz: "?x \<noteq> 0" using False by simp
  have "2 powi ilog2 \<bar>?x\<bar> \<le> \<bar>?x\<bar>"
    using nz by (intro ilog2_bounds(1)) simp
  also have "\<bar>?x\<bar> = of_int \<bar>k\<bar> * 2 powi w" by (simp add: abs_mult)
  also have "\<dots> < of_int (2 ^ p) * 2 powi w"
    using assms(1) by (intro mult_strict_right_mono) (simp_all only: of_int_less_iff, simp)
  also have "\<dots> = 2 powi (int p + w)" by (simp add: power_int_add)
  finally have "ilog2 \<bar>?x\<bar> < int p + w" by (rule pow2_less_exp)
  then have le: "u \<le> w" using assms(2) by (simp add: u_def)
  then obtain d where d: "w = u + int d" by (metis zle_iff_zadd)
  have "?x / 2 powi u = of_int (k * 2 ^ d)"
    by (simp add: d power_int_add)
  then have "of_int (round_half_even (?x / 2 powi u)) * 2 powi u = ?x / 2 powi u * 2 powi u"
    by (simp only: round_half_even_int)
  also have "\<dots> = ?x" by simp
  finally show ?thesis using nz by (simp add: round_to_def Let_def u_def)
qed

lemma round_to_of_int:
  "\<bar>k\<bar> < 2 ^ p \<Longrightarrow> emin \<le> 0 \<Longrightarrow> round_to p emin (of_int k) = of_int k"
  using round_to_exact [of k p emin 0] by simp

lemma fl_error: "\<bar>fl x - x\<bar> \<le> \<bar>x\<bar> / 2 ^ 53 + 1 / 2 ^ 1075"
proof -
  have "(2::rat) powi (- int 53) = 1 / 2 ^ 53" "(2::rat) powi (- 1074 - 1) = 1 / 2 ^ 1075"
    by (simp_all add: power_int_minus_divide)
  with round_to_error [of 53 "- 1074" x] show ?thesis by (simp add: fl_def)
qed

lemma fl_of_int: "\<bar>k\<bar> < 2 ^ 53 \<Longrightarrow> fl (of_int k) = of_int k"
  unfolding fl_def by (rule round_to_of_int) simp_all


lemma fl_zero [simp]: "fl 0 = 0"
  by (simp add: fl_def round_to_def)

lemma fl32_zero [simp]: "fl32 0 = 0"
  by (simp add: fl32_def round_to_def)

lemma fl_one [simp]: "fl 1 = 1"
  using fl_of_int [of 1] by simp

lemma fl_numeral: "numeral n < (2::int) ^ 53 \<Longrightarrow> fl (numeral n) = numeral n"
  using fl_of_int [of "numeral n"] by simp


lemma fl_eval:
  assumes "2 powi (u + 52) \<le> \<bar>x\<bar>" "\<bar>x\<bar> < 2 powi (u + 53)" "- 1074 \<le> u"
  shows "fl x = of_int (round_half_even (x / 2 powi u)) * 2 powi u"
proof -
  have "u + int 53 - 1 = u + 52" "u + int 53 = u + 53" by simp_all
  with assms show ?thesis
    unfolding fl_def by (intro round_to_eval) (simp_all only:)
qed

section \<open>The decoder returns every valid group, in order\<close>

lemma decodeLoop_skip:
  "i \<le> skipCount \<Longrightarrow> 4 dvd i \<Longrightarrow>
   decodeLoop limit d i acc = decodeLoop limit d skipCount acc"
proof (induction limit d i acc rule: decodeLoop.induct)
  case (1 limit d i acc)
  show ?case
  proof (cases "i = skipCount")
    case True
    then show ?thesis by simp
  next
    case False
    with "1.prems" have lt: "i < skipCount" by simp
    have d4: "4 dvd skipCount" by (simp add: skipCount_def)
    from lt "1.prems"(2) d4 have le: "i + 4 \<le> skipCount"
      by presburger
    show ?thesis
    proof (cases "int i < int (length d) - 3")
      case True
      have "decodeLoop limit d i acc = decodeLoop limit d (i + 4) acc"
        using True lt by (subst decodeLoop.simps) simp
      also have "\<dots> = decodeLoop limit d skipCount acc"
        using "1.IH"(1) [OF True lt le] "1.prems"(2) by simp
      finally show ?thesis .
    next
      case False
      then have a: "decodeLoop limit d i acc = acc"
        by (subst decodeLoop.simps) simp
      from False lt have "\<not> int skipCount < int (length d) - 3" by simp
      then have "decodeLoop limit d skipCount acc = acc"
        by (subst decodeLoop.simps) simp
      with a show ?thesis by simp
    qed
  qed
qed

lemma decodeLoop_body:
  "skipCount \<le> i \<Longrightarrow>
   decodeLoop limit d i acc =
     acc @ filter (\<lambda>v. abs_less v limit)
             (map (\<lambda>k. readFloatBE d (i + 4 * k)) [0..<(length d - i) div 4])"
proof (induction limit d i acc rule: decodeLoop.induct)
  case (1 limit d i acc)
  let ?f = "\<lambda>j k. readFloatBE d (j + 4 * k)"
  show ?case
  proof (cases "int i < int (length d) - 3")
    case False
    then have "(length d - i) div 4 = 0" by simp
    moreover from False have "decodeLoop limit d i acc = acc"
      by (subst decodeLoop.simps) simp
    ultimately show ?thesis by simp
  next
    case True
    then have "4 \<le> length d - i" by simp
    then have n: "(length d - i) div 4 = Suc ((length d - (i + 4)) div 4)"
      by (simp add: le_div_geq)
    have nlt: "\<not> i < skipCount" using "1.prems" by simp
    have shift: "map (?f i) [0..<Suc m] = readFloatBE d i # map (?f (i + 4)) [0..<m]" for m
      by (simp add: upt_conv_Cons map_Suc_upt [symmetric] add.assoc del: upt_Suc)
    show ?thesis
    proof (cases "abs_less (readFloatBE d i) limit")
      case ok: True
      have "decodeLoop limit d i acc = decodeLoop limit d (i + 4) (acc @ [readFloatBE d i])"
        using True nlt ok by (subst decodeLoop.simps) (simp add: Let_def)
      also have "\<dots> = (acc @ [readFloatBE d i]) @ filter (\<lambda>v. abs_less v limit)
             (map (?f (i + 4)) [0..<(length d - (i + 4)) div 4])"
        using "1.IH"(2) [OF True nlt refl ok] "1.prems" by simp
      finally show ?thesis using ok by (simp add: n shift del: upt_Suc)
    next
      case bad: False
      have "decodeLoop limit d i acc = decodeLoop limit d (i + 4) acc"
        using True nlt bad by (subst decodeLoop.simps) (simp add: Let_def)
      also have "\<dots> = acc @ filter (\<lambda>v. abs_less v limit)
             (map (?f (i + 4)) [0..<(length d - (i + 4)) div 4])"
        using "1.IH"(3) [OF True nlt refl bad] "1.prems" by simp
      finally show ?thesis using bad by (simp add: n shift del: upt_Suc)
    qed
  qed
qed

lemma decodeLoop_eq:
  "decodeLoop limit d 0 [] =
     filter (\<lambda>v. abs_less v limit)
       (map (\<lambda>k. readFloatBE d (skipCount + 4 * k)) [0..<(length d - skipCount) div 4])"
  using decodeLoop_skip [of 0 limit d "[]"] decodeLoop_body [of skipCount limit d "[]"]
  by simp

text \<open>
  Claim C1.  Both decoders skip the 524 header bytes and read the rest in aligned groups
  of four.  When every such group holds a finite value inside the script's amplitude
  bound (10 in sRtin.js, 1e+7 in UDPdown.js), the result is exactly the values of the
  groups in payload order, \<open>(length d - 524) div 4\<close> of them.  A remainder of one to
  three bytes lies in no group and is not read; the decoders have no error result.  The
  subtraction is the one of natural numbers: a payload shorter than the header gives no
  sample.
\<close>

theorem decode_all_groups:
  "((\<forall>k < (length d - skipCount) div 4. abs_less (readFloatBE d (skipCount + 4 * k)) 10) \<longrightarrow>
      convertMatrixToFloat32 d =
        map (\<lambda>k. readFloatBE d (skipCount + 4 * k)) [0..<(length d - skipCount) div 4]
      \<and> length (convertMatrixToFloat32 d) = (length d - skipCount) div 4)
   \<and>
   ((\<forall>k < (length d - skipCount) div 4. abs_less (readFloatBE d (skipCount + 4 * k)) (10 ^ 7)) \<longrightarrow>
      fst (convertMatrixToFloat32_UDPdown st d) =
        map (\<lambda>k. readFloatBE d (skipCount + 4 * k)) [0..<(length d - skipCount) div 4]
      \<and> length (fst (convertMatrixToFloat32_UDPdown st d)) = (length d - skipCount) div 4)"
proof -
  have all: "(\<forall>k < n. P (f k)) \<Longrightarrow> filter P (map f [0..<n]) = map f [0..<n]"
    for n :: nat and P :: "jsnumber \<Rightarrow> bool" and f
    by (rule filter_True) auto
  show ?thesis
    by (auto simp: convertMatrixToFloat32_def convertMatrixToFloat32_UDPdown_def Let_def
          decodeLoop_eq all)
qed

lemma examplePayload_reads:
  "readFloatBE examplePayload 524 = Num 1" "readFloatBE examplePayload 528 = Num (- (1 / 2))"
  by (simp_all add: examplePayload_def readFloatBE_def float32_of_bits_def nth_append)

text \<open>The example payload meets the hypothesis: two samples, the two stray bytes dropped.\<close>

theorem decode_all_groups_witness:
  "convertMatrixToFloat32 examplePayload = [Num 1, Num (- (1 / 2))]
   \<and> length examplePayload = skipCount + 4 * 2 + 2"
proof -
  have len: "(length examplePayload - skipCount) div 4 = 2"
    by (simp add: examplePayload_def skipCount_def)
  have hyp: "\<forall>k < (length examplePayload - skipCount) div 4.
      abs_less (readFloatBE examplePayload (skipCount + 4 * k)) 10"
    unfolding len
  proof (intro allI impI)
    fix k :: nat
    assume "k < 2"
    then consider "k = 0" | "k = 1" by linarith
    then show "abs_less (readFloatBE examplePayload (skipCount + 4 * k)) 10"
      by cases (simp_all add: skipCount_def examplePayload_reads)
  qed
  have "[0..<2] = [0, 1]" by (simp add: upt_rec)
  then show ?thesis
    using decode_all_groups [of examplePayload undefined] hyp examplePayload_reads
    by (simp add: len skipCount_def examplePayload_def)
qed


section \<open>The continuity heuristic changes no output\<close>

text \<open>
  Claim C9.  The chunk returned by the decoder of UDPdown.js is the same whatever the
  carried \<open>lastValue\<close> and \<open>lastIndex\<close> are: for any two states, and so for the states
  left behind by any two histories of earlier packets.
\<close>

theorem decode_ignores_history:
  "fst (convertMatrixToFloat32_UDPdown st1 d) = fst (convertMatrixToFloat32_UDPdown st2 d)
   \<and> fst (convertMatrixToFloat32_UDPdown (foldl onMessage_UDPdown st ps1) d)
       = fst (convertMatrixToFloat32_UDPdown (foldl onMessage_UDPdown st ps2) d)"
  by (simp add: convertMatrixToFloat32_UDPdown_def Let_def)

section \<open>A packet without valid samples\<close>

lemma decode_empty_keeps_state:
  "fst (convertMatrixToFloat32_UDPdown st d) = [] \<Longrightarrow> snd (convertMatrixToFloat32_UDPdown st d) = st"
  by (simp add: convertMatrixToFloat32_UDPdown_def Let_def split: if_splits)

text \<open>
  Claim C10.  When the decoder returns no sample, the \<open>message\<close> handler of UDPdown.js
  and the one of sRtin.js leave every variable of their script as it was: the recorded
  samples, the chunk counter, the diagnostic file, the carried last value, the frame
  accumulator and what the recogniser was given.  The playback buffers belong to
  writetobuf.js, which neither handler reaches.
\<close>

theorem empty_decode_no_effect:
  "(fst (convertMatrixToFloat32_UDPdown st d) = [] \<longrightarrow> onMessage_UDPdown st d = st)
   \<and> (convertMatrixToFloat32 d = [] \<longrightarrow> onMessage st' d = st')"
  using decode_empty_keeps_state [of st d]
  by (auto simp: onMessage_UDPdown_def onMessage_def Let_def split: prod.splits)

lemma silentPayload_decodes:
  "decodeLoop limit silentPayload 0 [] = []"
proof -
  have "readFloatBE silentPayload 524 = Infinity False" "readFloatBE silentPayload 528 = NaN"
    by (simp_all add: silentPayload_def readFloatBE_def float32_of_bits_def nth_append)
  moreover have "(length silentPayload - skipCount) div 4 = 2"
    by (simp add: silentPayload_def skipCount_def)
  moreover have "[0..<2] = [0, 1]" by (simp add: upt_rec)
  ultimately show ?thesis
    by (simp add: decodeLoop_eq skipCount_def)
qed

text \<open>A packet of an infinity and a NaN changes neither example state.\<close>

theorem empty_decode_no_effect_witness:
  "onMessage_UDPdown udpdownExample silentPayload = udpdownExample
   \<and> onMessage srtinExample silentPayload = srtinExample"
  using empty_decode_no_effect [of udpdownExample silentPayload srtinExample]
    silentPayload_decodes
  by (simp add: convertMatrixToFloat32_def convertMatrixToFloat32_UDPdown_def Let_def)


section \<open>Stopping a recording when the write fails\<close>




section \<open>Writing into the active buffer\<close>

lemma poke_counts [simp]:
  "framecount (poke b c f v) = framecount b" "channelcount (poke b c f v) = channelcount b"
  by (simp_all add: poke_def)

lemma inside_poke [simp]: "inside (poke b c f v) c' f' = inside b c' f'"
  by (simp add: inside_def)


lemma foldl_poke_counts [simp]:
  "framecount (foldl (\<lambda>b (frame, v). poke b c frame v) b calls) = framecount b"
  "channelcount (foldl (\<lambda>b (frame, v). poke b c frame v) b calls) = channelcount b"
  by (induction calls arbitrary: b) (simp_all split: prod.splits)



lemma write_active [simp]: "activeBuffer (writeAudioChunk st xs) = activeBuffer st"
  by (simp add: writeAudioChunk_def Let_def)

lemma write_framecount [simp]:
  "framecount (buffers (writeAudioChunk st xs) n) = framecount (buffers st n)"
  by (simp add: writeAudioChunk_def Let_def)


lemma writes_active [simp]: "activeBuffer (foldl writeAudioChunk st chunks) = activeBuffer st"
  by (induction chunks arbitrary: st) simp_all

lemma writes_framecount [simp]:
  "framecount (buffers (foldl writeAudioChunk st chunks) n) = framecount (buffers st n)"
  by (induction chunks arbitrary: st) simp_all










section \<open>Fading, switching and the deferred clear\<close>

lemma fl_error_le: "\<bar>x\<bar> \<le> B \<Longrightarrow> \<bar>fl x - x\<bar> \<le> B / 2 ^ 53 + 1 / 2 ^ 1075"
proof -
  assume "\<bar>x\<bar> \<le> B"
  then have "\<bar>x\<bar> / 2 ^ 53 \<le> B / 2 ^ 53" by (simp add: divide_right_mono)
  with fl_error [of x] show ?thesis by linarith
qed


lemma tiny: "(1::rat) / 2 ^ 1075 \<le> 1 / 2 ^ 60" "(1::rat) / 2 ^ 150 \<le> 1 / 2 ^ 60"
  by (simp_all add: divide_le_cancel)

lemma fl_error_unit: "\<bar>x\<bar> \<le> 1 \<Longrightarrow> \<bar>fl x - x\<bar> \<le> 1 / 2 ^ 52"
proof -
  assume "\<bar>x\<bar> \<le> 1"
  from fl_error_le [OF this] tiny(1) have "\<bar>fl x - x\<bar> \<le> 1 / 2 ^ 53 + 1 / 2 ^ 60" by linarith
  then show ?thesis by simp
qed

lemma fadeStep_counts [simp]:
  "framecount (fadeStep c b i) = framecount b" "channelcount (fadeStep c b i) = channelcount b"
  by (simp_all add: fadeStep_def Let_def)

lemma fade_inner_counts [simp]:
  "framecount (foldl (fadeStep c) b is) = framecount b"
  "channelcount (foldl (fadeStep c) b is) = channelcount b"
  by (induction "is" arbitrary: b) simp_all


lemma fade_outer_counts [simp]:
  "framecount (foldl (\<lambda>b channel. foldl (fadeStep channel) b [0..<fadeLength]) b cs) = framecount b"
  "channelcount (foldl (\<lambda>b channel. foldl (fadeStep channel) b [0..<fadeLength]) b cs) = channelcount b"
  by (induction cs arbitrary: b) simp_all



lemma applyFadeOut_fields [simp]:
  "activeBuffer (applyFadeOut st) = activeBuffer st"
  "inactiveBuffer (applyFadeOut st) = inactiveBuffer st"
  "scheduled (applyFadeOut st) = scheduled st"
  "switchDelay (applyFadeOut st) = switchDelay st"
  "clipStart1 (applyFadeOut st) = clipStart1 st"
  "n \<noteq> activeBuffer st \<Longrightarrow> buffers (applyFadeOut st) n = buffers st n"
  "framecount (buffers (applyFadeOut st) n) = framecount (buffers st n)"
  "channelcount (buffers (applyFadeOut st) n) = channelcount (buffers st n)"
  by (simp_all add: applyFadeOut_def Let_def)

lemma switchBuffer_fields [simp]:
  "activeBuffer (switchBuffer st) = inactiveBuffer st"
  "inactiveBuffer (switchBuffer st) = activeBuffer st"
  "scheduled (switchBuffer st) = scheduled st"
  "switchDelay (switchBuffer st) = switchDelay st"
  "clipStart1 (switchBuffer st) = clipStart1 st"
  "buffers (switchBuffer st) = buffers st"
  by (simp_all add: switchBuffer_def Let_def)

lemma clearBuffer_fields [simp]:
  "activeBuffer (clearBuffer st) = inactiveBuffer st"
  "inactiveBuffer (clearBuffer st) = activeBuffer st"
  "scheduled (clearBuffer st) = scheduled st @ [switchDelay st]"
  "switchDelay (clearBuffer st) = switchDelay st"
  "clipStart1 (clearBuffer st) = clipStart1 st"
  by (simp_all add: clearBuffer_def Let_def)






lemma clear_clear [simp]: "clear (clear b) = clear b"
  by (simp add: clear_def)

lemma clearInactiveBuffer_fields [simp]:
  "activeBuffer (clearInactiveBuffer st) = activeBuffer st"
  "inactiveBuffer (clearInactiveBuffer st) = inactiveBuffer st"
  "scheduled (clearInactiveBuffer st) = scheduled st"
  "clipStart1 (clearInactiveBuffer st) = 0"
  "buffers (clearInactiveBuffer st) (inactiveBuffer st) = clear (buffers st (inactiveBuffer st))"
  "n \<noteq> inactiveBuffer st \<Longrightarrow> buffers (clearInactiveBuffer st) n = buffers st n"
  "posted (clearInactiveBuffer st) = posted st @ [''Inactive buffer cleared after delay.'']"
  by (simp_all add: clearInactiveBuffer_def)







lemma exampleWriter_fields:
  "scheduled exampleWriter = []" "switchDelay exampleWriter = 20"
  "activeBuffer exampleWriter = UDPbuf" "inactiveBuffer exampleWriter = UDPbuf2"
  by (simp_all add: exampleWriter_def initial_def)

text \<open>
  Claim C6, as stated, fails.  Two calls of \<open>clearBuffer\<close> with no task run in between
  leave two tasks pending: the first was not cancelled, and it runs and clears.
\<close>

theorem second_switch_cancels_counterexample:
  "scheduled exampleWriter = []
   \<and> scheduled (clearBuffer exampleWriter) = [20]
   \<and> scheduled (clearBuffer (clearBuffer exampleWriter)) = [20, 20]
   \<and> scheduled (runTask (clearBuffer (clearBuffer exampleWriter))) = [20]
   \<and> posted (runTask (clearBuffer (clearBuffer exampleWriter)))
       = posted (clearBuffer (clearBuffer exampleWriter)) @ [''Inactive buffer cleared after delay.'']"
  by (simp add: runTask_def exampleWriter_fields)

text \<open>
  Claim C6, amended.  Every \<open>clearBuffer\<close> call adds one pending clear and removes
  none, so after a second call that comes before the first task ran, both tasks are
  pending.  Each then runs in turn.  A task clears the buffer that is inactive when it
  runs: after two switches that is the buffer that was inactive before the first call,
  so both tasks clear that buffer (the second finds it already cleared), the buffer
  that is active again is not cleared, and the write cursor is set to 0.
\<close>

theorem second_switch_keeps_both_clears:
  "scheduled (clearBuffer st) = scheduled st @ [switchDelay st]
   \<and> scheduled (clearBuffer (clearBuffer st)) = scheduled st @ [switchDelay st, switchDelay st]
   \<and> (scheduled st = [] \<and> activeBuffer st \<noteq> inactiveBuffer st \<longrightarrow>
        scheduled (runTask (clearBuffer (clearBuffer st))) = [switchDelay st]
        \<and> scheduled (runTask (runTask (clearBuffer (clearBuffer st)))) = []
        \<and> inactiveBuffer (clearBuffer (clearBuffer st)) = inactiveBuffer st
        \<and> buffers (runTask (clearBuffer (clearBuffer st))) (inactiveBuffer st)
            = clear (buffers (clearBuffer (clearBuffer st)) (inactiveBuffer st))
        \<and> buffers (runTask (clearBuffer (clearBuffer st))) (activeBuffer st)
            = buffers (clearBuffer (clearBuffer st)) (activeBuffer st)
        \<and> clipStart1 (runTask (clearBuffer (clearBuffer st))) = 0
        \<and> buffers (runTask (runTask (clearBuffer (clearBuffer st))))
            = buffers (runTask (clearBuffer (clearBuffer st))))"
proof -
  have run: "runTask s = clearInactiveBuffer (s\<lparr>scheduled := ds\<rparr>)" if "scheduled s = d # ds" for s d ds
    using that by (simp add: runTask_def)
  have sel: "inactiveBuffer (s\<lparr>scheduled := ds\<rparr>) = inactiveBuffer s"
    "buffers (s\<lparr>scheduled := ds\<rparr>) = buffers s" for s :: writetobuf and ds
    by simp_all
  have clr: "clear (clear b) = clear b" for b by (simp add: clear_def)
  show ?thesis
  proof (intro conjI impI)
    assume a: "scheduled st = [] \<and> activeBuffer st \<noteq> inactiveBuffer st"
    let ?s2 = "clearBuffer (clearBuffer st)"
    have s2: "scheduled ?s2 = [switchDelay st, switchDelay st]" using a by simp
    have r1: "runTask ?s2 = clearInactiveBuffer (?s2\<lparr>scheduled := [switchDelay st]\<rparr>)"
      using run [OF s2] .
    have s3: "scheduled (runTask ?s2) = [switchDelay st]" unfolding r1 by simp
    have r2: "runTask (runTask ?s2) = clearInactiveBuffer ((runTask ?s2)\<lparr>scheduled := []\<rparr>)"
      using run [OF s3] .
    have ina: "inactiveBuffer (runTask ?s2) = inactiveBuffer st" unfolding r1 by simp
    show "scheduled (runTask ?s2) = [switchDelay st]" by (rule s3)
    show "scheduled (runTask (runTask ?s2)) = []" unfolding r2 by simp
    show "inactiveBuffer ?s2 = inactiveBuffer st" by simp
    have b1: "buffers (runTask ?s2) n =
        (if n = inactiveBuffer st then clear (buffers ?s2 n) else buffers ?s2 n)" for n
      unfolding r1 using clearInactiveBuffer_fields(5,6) [where st = "?s2\<lparr>scheduled := [switchDelay st]\<rparr>"]
      by (auto simp: sel)
    show "buffers (runTask ?s2) (inactiveBuffer st) = clear (buffers ?s2 (inactiveBuffer st))"
      by (simp add: b1)
    show "buffers (runTask ?s2) (activeBuffer st) = buffers ?s2 (activeBuffer st)"
      using a by (simp add: b1)
    show "clipStart1 (runTask ?s2) = 0" unfolding r1 by simp
    have "buffers (runTask (runTask ?s2)) n = buffers (runTask ?s2) n" for n
      unfolding r2
      using clearInactiveBuffer_fields(5,6) [where st = "(runTask ?s2)\<lparr>scheduled := []\<rparr>"] ina
      by (cases "n = inactiveBuffer st") (auto simp: sel b1 clr)
    then show "buffers (runTask (runTask ?s2)) = buffers (runTask ?s2)" by (rule ext)
  qed simp_all
qed

text \<open>The four-frame example, switched twice and then left to its two tasks.\<close>

theorem second_switch_keeps_both_clears_witness:
  "scheduled (clearBuffer (clearBuffer exampleWriter)) = [20, 20]
   \<and> scheduled (runTask (clearBuffer (clearBuffer exampleWriter))) = [20]
   \<and> scheduled (runTask (runTask (clearBuffer (clearBuffer exampleWriter)))) = []
   \<and> clipStart1 (runTask (clearBuffer (clearBuffer exampleWriter))) = 0"
  using second_switch_keeps_both_clears [of exampleWriter]
  by (simp add: exampleWriter_fields)

section \<open>Resampling in doubles\<close>

lemma floor_rat_numeral [simp]:
  "\<lfloor>numeral a / numeral b :: rat\<rfloor> = numeral a div numeral b"
  using floor_divide_of_int_eq [of "numeral a" "numeral b", where ?'a = rat] by simp

lemma round_half_even_nonneg: "0 \<le> q \<Longrightarrow> 0 \<le> round_half_even q"
  by (simp add: round_half_even_def Let_def)

lemma fl_nonneg: "0 \<le> x \<Longrightarrow> 0 \<le> fl x"
  by (simp add: fl_def round_to_def Let_def round_half_even_nonneg)

lemma handlerRatio_near: "\<bar>handlerRatio - 441 / 160\<bar> \<le> 1 / 2 ^ 50"
proof -
  have x: "(of_nat INPUT_SAMPLE_RATE / of_nat TARGET_SAMPLE_RATE :: rat) = 441 / 160"
    by (simp add: INPUT_SAMPLE_RATE_def TARGET_SAMPLE_RATE_def)
  have "\<bar>441 / 160 :: rat\<bar> \<le> 3" by simp
  from fl_error_le [OF this] tiny(1)
  have "\<bar>fl (441 / 160) - 441 / 160\<bar> \<le> 3 / 2 ^ 53 + 1 / 2 ^ 60" by linarith
  moreover have "(3::rat) / 2 ^ 53 + 1 / 2 ^ 60 \<le> 1 / 2 ^ 50" by simp
  ultimately show ?thesis unfolding handlerRatio_def x by linarith
qed

lemma handlerRatio_bounds: "11 / 4 < handlerRatio" "handlerRatio < 2757 / 1000"
proof -
  have "(11::rat) / 4 < 441 / 160 - 1 / 2 ^ 50" "(441::rat) / 160 + 1 / 2 ^ 50 < 2757 / 1000"
    by simp_all
  with handlerRatio_near show "11 / 4 < handlerRatio" "handlerRatio < 2757 / 1000"
    by linarith+
qed

lemma downsampleAudio_handler:
  "downsampleAudio xs INPUT_SAMPLE_RATE TARGET_SAMPLE_RATE =
     Inr (map (downsampleAt xs handlerRatio)
            [0..<nat (math_round (fl (of_nat (length xs) / handlerRatio)))])"
proof -
  have "handlerRatio \<noteq> 0" using handlerRatio_bounds(1) by simp
  moreover have "TARGET_SAMPLE_RATE \<noteq> 0" by (simp add: TARGET_SAMPLE_RATE_def)
  ultimately show ?thesis
    by (simp add: downsampleAudio_def Let_def flip: handlerRatio_def)
qed

text \<open>
  Positions stay inside the chunk: for an output index below the new length, the
  position computed in doubles is below the chunk length by almost half the ratio.
\<close>

lemma position_bound:
  fixes \<rho> D :: rat
  assumes r: "0 < \<rho>" and i: "i < nat (math_round (fl (of_nat n / \<rho>)))"
    and D: "of_nat n / 2 ^ 53 \<le> D" "D \<le> 1"
  shows "fl (of_nat i * \<rho>) \<le> of_nat n - 3 * \<rho> / 8 + 3 * D + 1 / 2 ^ 60"
proof -
  define q where "q = fl (of_nat n / \<rho>)"
  define \<tau> :: rat where "\<tau> = 1 / 2 ^ 1075"
  have t: "0 < \<tau>" "\<tau> \<le> 1 / 8" "\<tau> \<le> 1 / 2 ^ 60"
    unfolding \<tau>_def using tiny(1) by (simp_all add: divide_le_cancel)
  have nr: "0 \<le> of_nat n / \<rho>" using r by simp
  from i have "int i + 1 \<le> \<lfloor>q + 1 / 2\<rfloor>" by (simp add: math_round_def q_def)
  then have "of_int (int i + 1) \<le> q + 1 / 2" by (simp only: le_floor_iff)
  then have iq: "of_nat i + 1 / 2 \<le> q" by simp
  have "\<bar>q - of_nat n / \<rho>\<bar> \<le> of_nat n / \<rho> / 2 ^ 53 + \<tau>"
    using fl_error [of "of_nat n / \<rho>"] nr by (simp add: q_def \<tau>_def)
  then have "q \<le> of_nat n / \<rho> + of_nat n / \<rho> / 2 ^ 53 + \<tau>" by linarith
  with iq have "of_nat i + 1 / 2 \<le> of_nat n / \<rho> + of_nat n / \<rho> / 2 ^ 53 + \<tau>" by linarith
  then have "(of_nat i + 1 / 2) * \<rho> \<le> (of_nat n / \<rho> + of_nat n / \<rho> / 2 ^ 53 + \<tau>) * \<rho>"
    using r by (simp only: mult_le_cancel_right_pos)
  also have "\<dots> = of_nat n + of_nat n / 2 ^ 53 + \<tau> * \<rho>"
    using r by (simp add: field_simps)
  finally have "of_nat i * \<rho> + \<rho> / 2 \<le> of_nat n + of_nat n / 2 ^ 53 + \<tau> * \<rho>"
    by (simp add: algebra_simps)
  moreover have "\<tau> * \<rho> \<le> \<rho> / 8" using t(2) r by simp
  ultimately have ir: "of_nat i * \<rho> \<le> of_nat n - 3 * \<rho> / 8 + D" using D(1) by linarith
  have i0: "0 \<le> of_nat i * \<rho>" using r by simp
  from ir r have "of_nat i * \<rho> \<le> of_nat n + D" by linarith
  then have "of_nat i * \<rho> / 2 ^ 53 \<le> (of_nat n + D) / 2 ^ 53" by (simp add: divide_right_mono)
  also have "\<dots> = of_nat n / 2 ^ 53 + D / 2 ^ 53" by (simp add: add_divide_distrib)
  also have "\<dots> \<le> D + D" using D by (intro add_mono) simp_all
  finally have e: "of_nat i * \<rho> / 2 ^ 53 \<le> 2 * D" by simp
  have "\<bar>fl (of_nat i * \<rho>) - of_nat i * \<rho>\<bar> \<le> of_nat i * \<rho> / 2 ^ 53 + \<tau>"
    using fl_error [of "of_nat i * \<rho>"] i0 by (simp add: \<tau>_def)
  with e ir t(3) show ?thesis by linarith
qed

lemma div_ge_one: "0 \<le> a \<Longrightarrow> 1 \<le> r \<Longrightarrow> a / r \<le> (a::rat)"
proof -
  assume a: "0 \<le> a" "1 \<le> r"
  then have "a * 1 \<le> a * r" by (intro mult_left_mono)
  with a show ?thesis by (simp add: divide_le_eq)
qed

lemma handler_quotient:
  assumes "n < 2 ^ 32"
  shows "\<bar>fl (of_nat n / handlerRatio) - of_nat n * 160 / 441\<bar> \<le> 1 / 2 ^ 17"
proof -
  let ?r = "handlerRatio"
  have r: "0 < ?r" "1 \<le> ?r" using handlerRatio_bounds(1) by simp_all
  have n: "rat_of_nat n \<le> 2 ^ 32"
    using assms by (metis less_imp_le of_nat_le_iff of_nat_numeral of_nat_power)
  have n0: "0 \<le> rat_of_nat n" by simp
  have "of_nat n / ?r - of_nat n * 160 / 441 = of_nat n * (160 / 441) * (441 / 160 - ?r) / ?r"
    using r(1) by (simp add: field_simps)
  then have "\<bar>of_nat n / ?r - of_nat n * 160 / 441\<bar>
      = of_nat n * (160 / 441) * \<bar>441 / 160 - ?r\<bar> / ?r"
    using r(1) by (simp add: abs_mult)
  also have "\<dots> \<le> of_nat n * (160 / 441) * \<bar>441 / 160 - ?r\<bar>"
    using r(2) by (intro div_ge_one) simp_all
  also have "\<dots> \<le> 2 ^ 32 * 1 * (1 / 2 ^ 50)"
    using n handlerRatio_near [unfolded abs_minus_commute [of handlerRatio]]
    by (intro mult_mono) simp_all
  finally have a: "\<bar>of_nat n / ?r - of_nat n * 160 / 441\<bar> \<le> 1 / 2 ^ 18" by simp
  have "of_nat n / ?r \<le> of_nat n" using n0 r(2) by (rule div_ge_one)
  with n have "\<bar>of_nat n / ?r\<bar> \<le> 2 ^ 32" using r by simp
  from fl_error_le [OF this] tiny(1)
  have "\<bar>fl (of_nat n / ?r) - of_nat n / ?r\<bar> \<le> 2 ^ 32 / 2 ^ 53 + 1 / 2 ^ 60" by linarith
  moreover have "(2::rat) ^ 32 / 2 ^ 53 + 1 / 2 ^ 60 + 1 / 2 ^ 18 \<le> 1 / 2 ^ 17" by simp
  ultimately show ?thesis using a by linarith
qed

lemma handler_length:
  assumes "n < 2 ^ 32"
  shows "math_round (fl (of_nat n / handlerRatio)) = (320 * int n + 441) div 882"
proof -
  define m where "m = 320 * int n + 441"
  define k where "k = m div 882"
  define s where "s = m mod 882"
  have m: "m = 882 * k + s" by (simp add: k_def s_def)
  have "odd m" by (simp add: m_def)
  then have "odd s" unfolding s_def by presburger
  then have "s \<noteq> 0" by auto
  moreover have "0 \<le> s" "s < 882" by (simp_all add: s_def)
  ultimately have s: "1 \<le> s" "s \<le> 881" by simp_all
  have "rat_of_nat n * 160 / 441 + 1 / 2 = of_int m / 882"
    by (simp add: m_def field_simps)
  also have "\<dots> = of_int k + of_int s / 882" by (simp add: m add_divide_distrib)
  finally have e: "rat_of_nat n * 160 / 441 + 1 / 2 = of_int k + of_int s / 882" .
  have "(1::rat) \<le> of_int s" "rat_of_int s \<le> 881" using s by simp_all
  then have s': "(1::rat) / 882 \<le> of_int s / 882" "rat_of_int s / 882 \<le> 881 / 882"
    by (simp_all add: divide_right_mono)
  have c: "(1::rat) / 2 ^ 17 < 1 / 882" by simp
  have "\<lfloor>fl (of_nat n / handlerRatio) + 1 / 2\<rfloor> = k"
  proof (rule floor_unique)
    show "of_int k \<le> fl (of_nat n / handlerRatio) + 1 / 2"
      using handler_quotient [OF assms] e s' c by linarith
    show "fl (of_nat n / handlerRatio) + 1 / 2 < of_int k + 1"
      using handler_quotient [OF assms] e s' c by linarith
  qed
  then show ?thesis by (simp add: math_round_def k_def m_def)
qed

lemma handler_index:
  assumes "n < 2 ^ 32" "i < nat (math_round (fl (of_nat n / handlerRatio)))"
  shows "nat \<lfloor>fl (of_nat i * handlerRatio)\<rfloor> + 1 < n"
proof -
  let ?p = "fl (of_nat i * handlerRatio)"
  have r: "0 < handlerRatio" using handlerRatio_bounds(1) by simp
  have n: "rat_of_nat n \<le> 2 ^ 32"
    using assms(1) by (metis less_imp_le of_nat_le_iff of_nat_numeral of_nat_power)
  then have "rat_of_nat n / 2 ^ 53 \<le> 2 ^ 32 / 2 ^ 53" by (simp add: divide_right_mono)
  then have D: "rat_of_nat n / 2 ^ 53 \<le> 1 / 2 ^ 21" "(1::rat) / 2 ^ 21 \<le> 1" by simp_all
  from position_bound [OF r assms(2) D]
  have "?p \<le> of_nat n - 3 * handlerRatio / 8 + 3 * (1 / 2 ^ 21) + 1 / 2 ^ 60" .
  moreover have "(1::rat) + 3 * (1 / 2 ^ 21) + 1 / 2 ^ 60 < 3 * (11 / 4) / 8" by simp
  ultimately have "?p < of_nat n - 1" using handlerRatio_bounds(1) by linarith
  then have "?p < of_int (int n - 1)" by simp
  then have "\<lfloor>?p\<rfloor> < int n - 1" by (simp only: floor_less_iff)
  moreover have "0 \<le> ?p" using r by (intro fl_nonneg) simp
  then have "0 \<le> \<lfloor>?p\<rfloor>" by simp
  ultimately show ?thesis by linarith
qed

text \<open>
  Rates that a double holds exactly: the ratio is a positive double.  When the new
  length stays below \<open>2 ^ 48\<close>, the ratio is large enough against the chunk length for
  every position to stay inside the chunk.
\<close>

lemma ratio_bound:
  assumes "0 < f" "0 < t" "t < 2 ^ 53"
  shows "1 / 2 ^ 54 \<le> fl (of_nat f / of_nat t)"
proof -
  define x where "x = rat_of_nat f / of_nat t"
  define c :: rat where "c = 1 / 2 ^ 53"
  define e where "e = x / 2 ^ 53 + 1 / 2 ^ 1075"
  have "rat_of_nat t \<le> 2 ^ 53"
    using assms(3) by (metis less_imp_le of_nat_le_iff of_nat_numeral of_nat_power)
  moreover have "0 < rat_of_nat t" using assms(2) by simp
  ultimately have t: "rat_of_nat t \<le> 2 ^ 53" "0 < rat_of_nat t" by blast+
  have f: "1 \<le> rat_of_nat f" using assms(1) by simp
  have x: "c \<le> x" unfolding x_def c_def using f t by (intro frac_le) simp_all
  have c0: "0 < c" by (simp add: c_def)
  with x have x0: "0 \<le> x" by linarith
  have err: "\<bar>fl x - x\<bar> \<le> e"
    using fl_error [of x] x0 by (simp add: e_def)
  have "x / 2 ^ 53 \<le> x / 4" using x0 by (intro divide_left_mono) simp_all
  moreover have "(1::rat) / 2 ^ 1075 \<le> c / 4"
    by (simp add: c_def divide_le_cancel)
  ultimately have "e \<le> x / 4 + c / 4" unfolding e_def by (rule add_mono)
  with err x have "c / 2 \<le> fl x" by linarith
  then show ?thesis by (simp add: c_def x_def)
qed

lemma ratio_against_length:
  fixes \<rho> :: rat
  assumes r: "0 < \<rho>" and L: "nat (math_round (fl (of_nat n / \<rho>))) < 2 ^ 48"
  shows "of_nat n \<le> 2 ^ 49 * \<rho>"
proof -
  define y where "y = rat_of_nat n / \<rho>"
  define q where "q = fl y"
  define \<tau> :: rat where "\<tau> = 1 / 2 ^ 1075"
  have y0: "0 \<le> y" unfolding y_def using r by simp
  define z where "z = \<lfloor>q + 1 / 2\<rfloor>"
  define B :: rat where "B = 2 ^ 48"
  from L have "nat z < 2 ^ 48" by (simp add: math_round_def q_def y_def z_def)
  then have "z < 2 ^ 48" by (cases "0 \<le> z") (simp_all add: nat_less_iff)
  then have "\<lfloor>q + 1 / 2\<rfloor> < 2 ^ 48" by (simp only: z_def)
  then have "q + 1 / 2 < of_int (2 ^ 48)" by (simp only: floor_less_iff)
  then have q: "q < B" by (simp add: B_def)
  have "\<bar>q - y\<bar> \<le> y / 2 ^ 53 + \<tau>"
    using fl_error [of y] y0 by (simp add: q_def \<tau>_def)
  moreover have "y / 2 ^ 53 \<le> y / 4" using y0 by (intro divide_left_mono) simp_all
  moreover have "\<tau> \<le> 1" unfolding \<tau>_def by (simp add: divide_le_eq)
  ultimately have "3 * y / 4 \<le> q + 1" by linarith
  moreover have "2 \<le> B" by (simp add: B_def)
  ultimately have "y \<le> 2 * B" using q by linarith
  then have "y \<le> 2 ^ 49" by (simp add: B_def)
  then show ?thesis unfolding y_def using r by (simp add: pos_divide_le_eq)
qed

lemma general_index:
  assumes "0 < f" "0 < t" "t < 2 ^ 53" "n < 2 ^ 53"
    "nat (math_round (fl (of_nat n / fl (of_nat f / of_nat t)))) < 2 ^ 48"
    "i < nat (math_round (fl (of_nat n / fl (of_nat f / of_nat t))))"
  shows "nat \<lfloor>fl (of_nat i * fl (of_nat f / of_nat t))\<rfloor> < n"
proof -
  define r where "r = fl (of_nat f / of_nat t)"
  define p where "p = fl (of_nat i * r)"
  define D where "D = rat_of_nat n / 2 ^ 53"
  define c :: rat where "c = 1 / 2 ^ 60"
  have "1 / 2 ^ 54 \<le> r" unfolding r_def using assms(1-3) by (rule ratio_bound)
  then have r: "0 < r" by (rule less_le_trans [rotated]) simp
  have "n \<noteq> 0"
  proof
    assume "n = 0"
    with assms(6) show False by (simp add: math_round_def)
  qed
  then have "1 \<le> rat_of_nat n" by simp
  then have "1 / 2 ^ 53 \<le> D" unfolding D_def by (simp add: divide_right_mono)
  moreover have "c < 3 * (1 / 2 ^ 53)" unfolding c_def by simp
  ultimately have cD: "c < 3 * D" by linarith
  have "rat_of_nat n \<le> 2 ^ 53"
    using assms(4) by (metis less_imp_le of_nat_le_iff of_nat_numeral of_nat_power)
  then have "D \<le> 2 ^ 53 / 2 ^ 53" unfolding D_def by (simp add: divide_right_mono)
  then have D1: "D \<le> 1" by simp
  have DD: "rat_of_nat n / 2 ^ 53 \<le> D" by (simp add: D_def)
  from position_bound [OF r assms(6) [folded r_def] DD D1]
  have pb: "p \<le> of_nat n - 3 * r / 8 + 3 * D + c" by (simp add: p_def c_def)
  have "of_nat n \<le> 2 ^ 49 * r"
    using r assms(5) [folded r_def] by (rule ratio_against_length)
  then have "of_nat n / 2 ^ 49 \<le> r" by (simp add: divide_le_eq mult.commute)
  moreover have "rat_of_nat n / 2 ^ 49 = 16 * D" by (simp add: D_def)
  ultimately have "16 * D \<le> r" by simp
  with pb cD have "p < of_nat n" by linarith
  then have "p < of_int (int n)" by simp
  then have "\<lfloor>p\<rfloor> < int n" by (simp only: floor_less_iff)
  moreover have "0 \<le> p" unfolding p_def using r by (intro fl_nonneg) simp
  then have "0 \<le> \<lfloor>p\<rfloor>" by simp
  ultimately show ?thesis unfolding p_def r_def by linarith
qed

lemma toInt16_id: "- 32768 \<le> v \<Longrightarrow> v \<le> 32767 \<Longrightarrow> toInt16 v = v"
  by (simp add: toInt16_def)

text \<open>
  Interpolating between two equal 16-bit samples gives the sample back: the rounding
  errors of the four operations stay far below one half.
\<close>

lemma interp_constant:
  assumes v: "- 32768 \<le> v" "v \<le> 32767" and p: "0 \<le> p"
  shows "math_round (fl (fl (of_int v * fl (1 - fl (p - of_nat (nat \<lfloor>p\<rfloor>))))
                         + fl (of_int v * fl (p - of_nat (nat \<lfloor>p\<rfloor>))))) = v"
proof -
  define x where "x = p - of_nat (nat \<lfloor>p\<rfloor>)"
  define fr where "fr = fl x"
  define a where "a = fl (1 - fr)"
  define y where "y = fl (of_int v * a)"
  define z where "z = fl (of_int v * fr)"
  define w :: rat where "w = of_int v"
  have w: "\<bar>w\<bar> \<le> 32768" using v unfolding w_def by (simp add: abs_le_iff)
  have "0 \<le> \<lfloor>p\<rfloor>" using p by simp
  then have "rat_of_nat (nat \<lfloor>p\<rfloor>) = of_int \<lfloor>p\<rfloor>" by simp
  then have x: "0 \<le> x" "x < 1" unfolding x_def by linarith+
  then have "\<bar>x\<bar> \<le> 1" by simp
  from fl_error_unit [OF this] have "\<bar>fr - x\<bar> \<le> 1 / 2 ^ 52" by (simp add: fr_def)
  then have fr: "\<bar>fr - x\<bar> \<le> 1" by (rule order_trans) simp
  with x have "\<bar>1 - fr\<bar> \<le> 2" by linarith
  from fl_error_le [OF this] tiny(1)
  have a: "\<bar>a - (1 - fr)\<bar> \<le> 2 / 2 ^ 53 + 1 / 2 ^ 60" unfolding a_def by linarith
  from fr x have fr2: "\<bar>fr\<bar> \<le> 2" by linarith
  have "(2::rat) / 2 ^ 53 + 1 / 2 ^ 60 \<le> 1" by simp
  with a \<open>\<bar>1 - fr\<bar> \<le> 2\<close> have a3: "\<bar>a\<bar> \<le> 3" by linarith
  have "\<bar>w * a\<bar> \<le> 32768 * 3" unfolding abs_mult using w a3 by (intro mult_mono) simp_all
  from fl_error_le [OF this] tiny(1)
  have y: "\<bar>y - w * a\<bar> \<le> 32768 * 3 / 2 ^ 53 + 1 / 2 ^ 60" unfolding y_def w_def by linarith
  have "\<bar>w * fr\<bar> \<le> 32768 * 2" unfolding abs_mult using w fr2 by (intro mult_mono) simp_all
  from fl_error_le [OF this] tiny(1)
  have z: "\<bar>z - w * fr\<bar> \<le> 32768 * 2 / 2 ^ 53 + 1 / 2 ^ 60" unfolding z_def w_def by linarith
  have "w * a + w * fr - w = w * (a - (1 - fr))" by (simp add: algebra_simps)
  then have "\<bar>w * a + w * fr - w\<bar> = \<bar>w\<bar> * \<bar>a - (1 - fr)\<bar>" by (simp add: abs_mult)
  also have "\<dots> \<le> 32768 * (2 / 2 ^ 53 + 1 / 2 ^ 60)" using w a by (intro mult_mono) simp_all
  finally have s: "\<bar>w * a + w * fr - w\<bar> \<le> 32768 * (2 / 2 ^ 53 + 1 / 2 ^ 60)" .
  have c1: "(32768::rat) * (2 / 2 ^ 53 + 1 / 2 ^ 60) + (32768 * 3 / 2 ^ 53 + 1 / 2 ^ 60)
      + (32768 * 2 / 2 ^ 53 + 1 / 2 ^ 60) \<le> 1 / 8" by simp
  from s y z c1 have yz: "\<bar>y + z - w\<bar> \<le> 1 / 8" by linarith
  with w have "\<bar>y + z\<bar> \<le> 32769" by linarith
  from fl_error_le [OF this] tiny(1)
  have "\<bar>fl (y + z) - (y + z)\<bar> \<le> 32769 / 2 ^ 53 + 1 / 2 ^ 60" by linarith
  moreover have "(32769::rat) / 2 ^ 53 + 1 / 2 ^ 60 \<le> 1 / 8" by simp
  ultimately have f: "\<bar>fl (y + z) - w\<bar> \<le> 1 / 4" using yz by linarith
  have "\<lfloor>fl (y + z) + 1 / 2\<rfloor> = v"
  proof (rule floor_unique)
    show "of_int v \<le> fl (y + z) + 1 / 2" using f unfolding w_def by linarith
    show "fl (y + z) + 1 / 2 < of_int v + 1" using f unfolding w_def by linarith
  qed
  then show ?thesis
    by (simp add: math_round_def y_def z_def a_def fr_def x_def)
qed

lemma downsampleAt_constant:
  assumes "- 32768 \<le> v" "v \<le> 32767" "0 \<le> r" "nat \<lfloor>fl (of_nat i * r)\<rfloor> < n"
  shows "downsampleAt (replicate n v) r i = v"
proof -
  have "0 \<le> fl (of_nat i * r)" using assms(3) by (intro fl_nonneg) simp
  from interp_constant [OF assms(1,2) this] assms show ?thesis
    by (simp add: downsampleAt_def Let_def toInt16_id)
qed

lemma downsampleAt_clamped:
  assumes "nat \<lfloor>fl (of_nat i * r)\<rfloor> < length xs" "length xs \<le> nat \<lfloor>fl (of_nat i * r)\<rfloor> + 1"
  shows "downsampleAt xs r i = toInt16 (last xs)"
proof -
  from assms have idx: "nat \<lfloor>fl (of_nat i * r)\<rfloor> = length xs - 1" and ne: "xs \<noteq> []" by auto
  from ne have "last xs = xs ! (length xs - 1)" by (rule last_conv_nth)
  with assms idx show ?thesis by (simp add: downsampleAt_def Let_def)
qed

lemma downsampleAudio_constant:
  assumes "0 < f" "0 < t" "t < 2 ^ 53" "n < 2 ^ 53"
    "nat (math_round (fl (of_nat n / fl (of_nat f / of_nat t)))) < 2 ^ 48"
    "- 32768 \<le> v" "v \<le> 32767"
  shows "downsampleAudio (replicate n v) f t =
     Inr (replicate (nat (math_round (fl (of_nat n / fl (of_nat f / of_nat t))))) v)"
proof -
  let ?r = "fl (of_nat f / of_nat t)"
  let ?m = "nat (math_round (fl (of_nat n / ?r)))"
  have rb: "1 / 2 ^ 54 \<le> ?r" using assms(1-3) by (rule ratio_bound)
  then have r: "0 < ?r" by (rule less_le_trans [rotated]) simp
  have "map (downsampleAt (replicate n v) ?r) [0..<?m] = replicate ?m v"
  proof (rule nth_equalityI)
    show "length (map (downsampleAt (replicate n v) ?r) [0..<?m]) = length (replicate ?m v)"
      by simp
  next
    fix i
    assume "i < length (map (downsampleAt (replicate n v) ?r) [0..<?m])"
    then have i: "i < ?m" by simp
    from general_index [OF assms(1-5) i] have "downsampleAt (replicate n v) ?r i = v"
      using assms(6,7) r by (intro downsampleAt_constant) simp_all
    with i show "map (downsampleAt (replicate n v) ?r) [0..<?m] ! i = replicate ?m v ! i"
      by simp
  qed
  moreover have "?r \<noteq> 0" "t \<noteq> 0" using r assms(2) by simp_all
  ultimately show ?thesis by (simp add: downsampleAudio_def Let_def)
qed

lemma downsampleAudio_handler_constant:
  assumes "n < 2 ^ 32" "- 32768 \<le> v" "v \<le> 32767"
  shows "downsampleAudio (replicate n v) INPUT_SAMPLE_RATE TARGET_SAMPLE_RATE =
     Inr (replicate (nat ((320 * int n + 441) div 882)) v)"
proof -
  let ?m = "nat (math_round (fl (of_nat n / handlerRatio)))"
  have r: "0 \<le> handlerRatio" using handlerRatio_bounds(1) by simp
  have "map (downsampleAt (replicate n v) handlerRatio) [0..<?m] = replicate ?m v"
  proof (rule nth_equalityI)
    show "length (map (downsampleAt (replicate n v) handlerRatio) [0..<?m])
        = length (replicate ?m v)"
      by simp
  next
    fix i
    assume "i < length (map (downsampleAt (replicate n v) handlerRatio) [0..<?m])"
    then have i: "i < ?m" by simp
    from handler_index [OF assms(1) i] have "nat \<lfloor>fl (of_nat i * handlerRatio)\<rfloor> < n" by simp
    then have "downsampleAt (replicate n v) handlerRatio i = v"
      using assms(2,3) r by (intro downsampleAt_constant) simp_all
    with i show "map (downsampleAt (replicate n v) handlerRatio) [0..<?m] ! i = replicate ?m v ! i"
      by simp
  qed
  then show ?thesis
    using downsampleAudio_handler [of "replicate n v"] handler_length [OF assms(1)]
    by (simp only: length_replicate)
qed

lemma fl_half_numeral:
  assumes "numeral n < (2::int) ^ 53"
  shows "fl (numeral n / 2) = numeral n / 2"
proof -
  have e: "rat_of_int (numeral n) * 2 powi (- 1) = numeral n / 2"
    by (simp add: power_int_minus_divide)
  have "\<bar>numeral n :: int\<bar> < 2 ^ 53" using assms by simp
  from round_to_exact [OF this, of "- 1074" "- 1"] show ?thesis
    unfolding fl_def e by simp
qed

lemma fl_half [simp]: "fl (1 / 2) = 1 / 2"
proof -
  have e: "rat_of_int 1 * 2 powi (- 1) = 1 / 2"
    by (simp add: power_int_minus_divide)
  have "\<bar>1 :: int\<bar> < 2 ^ 53" by simp
  from round_to_exact [OF this, of "- 1074" "- 1"] show ?thesis
    unfolding fl_def e by simp
qed

lemma resampleChunks_constant:
  assumes "0 < f" "0 < t" "t < 2 ^ 53" "n < 2 ^ 53"
    "nat (math_round (fl (of_nat n / fl (of_nat f / of_nat t)))) < 2 ^ 48"
    "- 32768 \<le> v" "v \<le> 32767"
  shows "resampleChunks (replicate N (replicate n v)) f t =
     Inr (replicate (N * nat (math_round (fl (of_nat n / fl (of_nat f / of_nat t))))) v)"
proof (induction N)
  case 0
  then show ?case by simp
next
  case (Suc N)
  then show ?case
    by (simp add: downsampleAudio_constant [OF assms] replicate_add)
qed

lemma resampleChunks_handler_constant:
  assumes "n < 2 ^ 32" "- 32768 \<le> v" "v \<le> 32767"
  shows "resampleChunks (replicate N (replicate n v)) INPUT_SAMPLE_RATE TARGET_SAMPLE_RATE =
     Inr (replicate (N * nat ((320 * int n + 441) div 882)) v)"
proof (induction N)
  case 0
  then show ?case by simp
next
  case (Suc N)
  then show ?case
    by (simp add: downsampleAudio_handler_constant [OF assms] replicate_add)
qed

section \<open>The frames handed to the recogniser\<close>

lemma downsample_handler_rates:
  "downsampleAudio chunk INPUT_SAMPLE_RATE TARGET_SAMPLE_RATE = Inr (resampled chunk)"
  by (simp add: resampled_def downsampleAudio_handler)

lemma resampled_eq:
  "resampled xs = map (downsampleAt xs handlerRatio)
     [0..<nat (math_round (fl (of_nat (length xs) / handlerRatio)))]"
  by (simp add: resampled_def downsampleAudio_handler)

lemma length_resampled:
  "length chunk = TARGET_SAMPLE_RATE \<Longrightarrow> length (resampled chunk) = 5805"
  using handler_length [of 16000]
  by (simp add: resampled_eq TARGET_SAMPLE_RATE_def)

lemma resampled_constant:
  assumes "- 32768 \<le> v" "v \<le> 32767"
  shows "resampled (replicate TARGET_SAMPLE_RATE v) = replicate 5805 v"
proof -
  have n: "nat ((320 * int TARGET_SAMPLE_RATE + 441) div 882) = 5805"
    by (simp add: TARGET_SAMPLE_RATE_def)
  have "TARGET_SAMPLE_RATE < 2 ^ 32" by (simp add: TARGET_SAMPLE_RATE_def)
  from downsampleAudio_handler_constant [OF this assms]
  show ?thesis unfolding resampled_def n by (simp only: sum.case)
qed

lemma frameAt_drop: "frameAt (drop TARGET_SAMPLE_RATE buf) j = frameAt buf (Suc j)"
  by (simp add: frameAt_def add.commute)

lemma frameLoop_step:
  "TARGET_SAMPLE_RATE \<le> length (audioBuffer st) \<Longrightarrow>
   frameLoop st =
     frameLoop
       ((if isRecording st
         then st\<lparr>audioBuffer := drop TARGET_SAMPLE_RATE (audioBuffer st),
                 recordingAudio := recordingAudio st
                   @ resampled (take TARGET_SAMPLE_RATE (audioBuffer st))\<rparr>
         else st\<lparr>audioBuffer := drop TARGET_SAMPLE_RATE (audioBuffer st)\<rparr>)
        \<lparr>acceptWaveform := acceptWaveform st
           @ [resampled (take TARGET_SAMPLE_RATE (audioBuffer st))]\<rparr>)"
  by (subst frameLoop.simps) (simp add: Let_def downsample_handler_rates)

lemma frameLoop_stop:
  "\<not> TARGET_SAMPLE_RATE \<le> length (audioBuffer st) \<Longrightarrow> frameLoop st = st"
  by (subst frameLoop.simps) simp

lemma frameLoop_result:
  "audioBuffer (frameLoop st)
     = drop (length (audioBuffer st) div TARGET_SAMPLE_RATE * TARGET_SAMPLE_RATE) (audioBuffer st)
   \<and> acceptWaveform (frameLoop st)
     = acceptWaveform st
       @ map (\<lambda>j. resampled (frameAt (audioBuffer st) j))
           [0..<length (audioBuffer st) div TARGET_SAMPLE_RATE]"
proof (induction n \<equiv> "length (audioBuffer st)" arbitrary: st rule: less_induct)
  case less
  let ?T = TARGET_SAMPLE_RATE
  have T: "0 < ?T" by (simp add: TARGET_SAMPLE_RATE_def)
  show ?case
  proof (cases "?T \<le> length (audioBuffer st)")
    case False
    then have "length (audioBuffer st) div ?T = 0" by simp
    with False show ?thesis by (simp add: frameLoop_stop)
  next
    case True
    define st' where "st' =
        (if isRecording st
         then st\<lparr>audioBuffer := drop ?T (audioBuffer st),
                 recordingAudio := recordingAudio st @ resampled (take ?T (audioBuffer st))\<rparr>
         else st\<lparr>audioBuffer := drop ?T (audioBuffer st)\<rparr>)
        \<lparr>acceptWaveform := acceptWaveform st @ [resampled (take ?T (audioBuffer st))]\<rparr>"
    have step: "frameLoop st = frameLoop st'"
      unfolding st'_def by (rule frameLoop_step [OF True])
    have buf: "audioBuffer st' = drop ?T (audioBuffer st)" by (simp add: st'_def)
    have acc: "acceptWaveform st' = acceptWaveform st @ [resampled (frameAt (audioBuffer st) 0)]"
      by (simp add: st'_def frameAt_def)
    have "length (audioBuffer st') < length (audioBuffer st)"
      using True T by (simp only: buf length_drop)
    from less [OF this] have ih:
      "audioBuffer (frameLoop st')
         = drop (length (audioBuffer st') div ?T * ?T) (audioBuffer st')"
      "acceptWaveform (frameLoop st')
         = acceptWaveform st'
           @ map (\<lambda>j. resampled (frameAt (audioBuffer st') j)) [0..<length (audioBuffer st') div ?T]"
      by blast+
    have k: "length (audioBuffer st) div ?T = Suc ((length (audioBuffer st) - ?T) div ?T)"
      using True T by (simp add: le_div_geq)
    have shift: "map (\<lambda>j. resampled (frameAt (audioBuffer st) j)) [0..<Suc m] =
        resampled (frameAt (audioBuffer st) 0)
        # map (\<lambda>j. resampled (frameAt (drop ?T (audioBuffer st)) j)) [0..<m]" for m
      by (simp add: upt_conv_Cons map_Suc_upt [symmetric] frameAt_drop del: upt_Suc)
    have "audioBuffer (frameLoop st)
        = drop (length (audioBuffer st) div ?T * ?T) (audioBuffer st)"
      unfolding step ih(1) buf k by (simp add: add.commute)
    moreover have "acceptWaveform (frameLoop st)
        = acceptWaveform st
          @ map (\<lambda>j. resampled (frameAt (audioBuffer st) j)) [0..<length (audioBuffer st) div ?T]"
      unfolding step ih(2) buf acc k shift by simp
    ultimately show ?thesis by simp
  qed
qed

lemma frameLoop_rest:
  "isRecording (frameLoop st) = isRecording st
   \<and> posts (frameLoop st) = posts st
   \<and> wavFiles (frameLoop st) = wavFiles st
   \<and> unhandled (frameLoop st) = unhandled st
   \<and> recordingAudio (frameLoop st)
     = (if isRecording st
        then recordingAudio st
          @ concat (map (\<lambda>j. resampled (frameAt (audioBuffer st) j))
              [0..<length (audioBuffer st) div TARGET_SAMPLE_RATE])
        else recordingAudio st)"
proof (induction n \<equiv> "length (audioBuffer st)" arbitrary: st rule: less_induct)
  case less
  let ?T = TARGET_SAMPLE_RATE
  have T: "0 < ?T" by (simp add: TARGET_SAMPLE_RATE_def)
  show ?case
  proof (cases "?T \<le> length (audioBuffer st)")
    case False
    then have "length (audioBuffer st) div ?T = 0" by simp
    with False show ?thesis by (simp add: frameLoop_stop)
  next
    case True
    define st' where "st' =
        (if isRecording st
         then st\<lparr>audioBuffer := drop ?T (audioBuffer st),
                 recordingAudio := recordingAudio st @ resampled (take ?T (audioBuffer st))\<rparr>
         else st\<lparr>audioBuffer := drop ?T (audioBuffer st)\<rparr>)
        \<lparr>acceptWaveform := acceptWaveform st @ [resampled (take ?T (audioBuffer st))]\<rparr>"
    have step: "frameLoop st = frameLoop st'"
      unfolding st'_def by (rule frameLoop_step [OF True])
    have buf: "audioBuffer st' = drop ?T (audioBuffer st)" by (simp add: st'_def)
    have same: "isRecording st' = isRecording st" "posts st' = posts st"
      "wavFiles st' = wavFiles st" "unhandled st' = unhandled st"
      by (simp_all add: st'_def)
    have rec: "recordingAudio st'
        = (if isRecording st then recordingAudio st @ resampled (frameAt (audioBuffer st) 0)
           else recordingAudio st)"
      by (simp add: st'_def frameAt_def)
    have "length (audioBuffer st') < length (audioBuffer st)"
      using True T by (simp only: buf length_drop)
    from less [OF this] have ih:
      "isRecording (frameLoop st') = isRecording st'" "posts (frameLoop st') = posts st'"
      "wavFiles (frameLoop st') = wavFiles st'" "unhandled (frameLoop st') = unhandled st'"
      "recordingAudio (frameLoop st')
        = (if isRecording st'
           then recordingAudio st'
             @ concat (map (\<lambda>j. resampled (frameAt (audioBuffer st') j))
                 [0..<length (audioBuffer st') div ?T])
           else recordingAudio st')"
      by blast+
    have k: "length (audioBuffer st) div ?T = Suc ((length (audioBuffer st) - ?T) div ?T)"
      using True T by (simp add: le_div_geq)
    have shift: "map (\<lambda>j. resampled (frameAt (audioBuffer st) j)) [0..<Suc m] =
        resampled (frameAt (audioBuffer st) 0)
        # map (\<lambda>j. resampled (frameAt (drop ?T (audioBuffer st)) j)) [0..<m]" for m
      by (simp add: upt_conv_Cons map_Suc_upt [symmetric] frameAt_drop del: upt_Suc)
    have "recordingAudio (frameLoop st)
        = (if isRecording st
           then recordingAudio st
             @ concat (map (\<lambda>j. resampled (frameAt (audioBuffer st) j))
                 [0..<length (audioBuffer st) div ?T])
           else recordingAudio st)"
      unfolding step ih(5) same rec buf k shift by simp
    then show ?thesis unfolding step ih(1-4) same by simp
  qed
qed

lemma pushSamples_state:
  "pushSamples st xs =
     st\<lparr>audioBuffer :=
          drop (length (audioBuffer st @ xs) div TARGET_SAMPLE_RATE * TARGET_SAMPLE_RATE)
            (audioBuffer st @ xs),
        recordingAudio :=
          (if isRecording st
           then recordingAudio st
             @ concat (map (\<lambda>j. resampled (frameAt (audioBuffer st @ xs) j))
                 [0..<length (audioBuffer st @ xs) div TARGET_SAMPLE_RATE])
           else recordingAudio st),
        acceptWaveform :=
          acceptWaveform st
          @ map (\<lambda>j. resampled (frameAt (audioBuffer st @ xs) j))
              [0..<length (audioBuffer st @ xs) div TARGET_SAMPLE_RATE]\<rparr>"
proof -
  define st1 where "st1 = st\<lparr>audioBuffer := audioBuffer st @ xs\<rparr>"
  have f: "audioBuffer st1 = audioBuffer st @ xs" "isRecording st1 = isRecording st"
    "recordingAudio st1 = recordingAudio st" "acceptWaveform st1 = acceptWaveform st"
    "posts st1 = posts st" "wavFiles st1 = wavFiles st" "unhandled st1 = unhandled st"
    by (simp_all add: st1_def)
  have push: "pushSamples st xs = frameLoop st1"
    by (simp add: pushSamples_def st1_def)
  show ?thesis
    unfolding push
    using frameLoop_result [of st1] frameLoop_rest [of st1]
    by (intro srtin.equality) (simp_all add: f)
qed

lemma frameAt_append:
  "Suc j * TARGET_SAMPLE_RATE \<le> length stream \<Longrightarrow> frameAt (stream @ xs) j = frameAt stream j"
  by (simp add: frameAt_def)

lemma frameAt_length:
  "Suc j * TARGET_SAMPLE_RATE \<le> length stream \<Longrightarrow> length (frameAt stream j) = TARGET_SAMPLE_RATE"
  by (simp add: frameAt_def)

lemma map_upt_split:
  "map f [0..<k + m] = map f [0..<k] @ map (\<lambda>j. f (k + j)) [0..<m]"
  by (induction m) simp_all

lemma push_inv:
  assumes buf: "audioBuffer st
      = drop (length stream div TARGET_SAMPLE_RATE * TARGET_SAMPLE_RATE) stream"
    and acc: "acceptWaveform st
      = acc0 @ map (\<lambda>j. resampled (frameAt stream j)) [0..<length stream div TARGET_SAMPLE_RATE]"
  shows "audioBuffer (pushSamples st xs)
      = drop (length (stream @ xs) div TARGET_SAMPLE_RATE * TARGET_SAMPLE_RATE) (stream @ xs)"
    and "acceptWaveform (pushSamples st xs)
      = acc0 @ map (\<lambda>j. resampled (frameAt (stream @ xs) j))
                 [0..<length (stream @ xs) div TARGET_SAMPLE_RATE]"
proof -
  let ?T = TARGET_SAMPLE_RATE
  define k where "k = length stream div ?T"
  define st1 where "st1 = st\<lparr>audioBuffer := audioBuffer st @ xs\<rparr>"
  define m where "m = length (audioBuffer st1) div ?T"
  have T: "0 < ?T" by (simp add: TARGET_SAMPLE_RATE_def)
  have kT: "k * ?T \<le> length stream" by (simp add: k_def)
  have buf1: "audioBuffer st1 = drop (k * ?T) (stream @ xs)"
    using kT by (simp add: st1_def buf k_def)
  have acc1: "acceptWaveform st1 = acc0 @ map (\<lambda>j. resampled (frameAt stream j)) [0..<k]"
    by (simp add: st1_def acc k_def)
  have "length (stream @ xs) = k * ?T + length (audioBuffer st1)"
    using kT by (simp add: buf1)
  then have km: "length (stream @ xs) div ?T = k + m"
    using T by (simp add: m_def)
  have old: "resampled (frameAt stream j) = resampled (frameAt (stream @ xs) j)" if "j < k" for j
  proof -
    from that have "Suc j * ?T \<le> k * ?T" by (simp only: mult_le_mono1 Suc_leI)
    with kT have "Suc j * ?T \<le> length stream" by linarith
    then show ?thesis by (simp only: frameAt_append)
  qed
  have new: "frameAt (audioBuffer st1) j = frameAt (stream @ xs) (k + j)" for j
  proof -
    have "j * ?T + k * ?T = (k + j) * ?T" by (simp add: algebra_simps)
    then show ?thesis
      unfolding buf1 frameAt_def by (simp only: drop_drop)
  qed
  have res: "audioBuffer (frameLoop st1) = drop (m * ?T) (audioBuffer st1)"
    "acceptWaveform (frameLoop st1)
       = acceptWaveform st1 @ map (\<lambda>j. resampled (frameAt (audioBuffer st1) j)) [0..<m]"
    using frameLoop_result [of st1] by (simp_all add: m_def)
  have push: "pushSamples st xs = frameLoop st1"
    by (simp add: pushSamples_def st1_def)
  have "(k + m) * ?T = m * ?T + k * ?T" by (simp add: algebra_simps)
  then show "audioBuffer (pushSamples st xs) = drop (length (stream @ xs) div ?T * ?T) (stream @ xs)"
    unfolding push res(1) km buf1 by (simp only: drop_drop)
  have "map (\<lambda>j. resampled (frameAt stream j)) [0..<k]
      = map (\<lambda>j. resampled (frameAt (stream @ xs) j)) [0..<k]"
    using old by simp
  then show "acceptWaveform (pushSamples st xs)
      = acc0 @ map (\<lambda>j. resampled (frameAt (stream @ xs) j)) [0..<length (stream @ xs) div ?T]"
    unfolding push res(2) km acc1 new map_upt_split by simp
qed

lemma pushes_inv:
  "audioBuffer st = drop (length stream div TARGET_SAMPLE_RATE * TARGET_SAMPLE_RATE) stream \<Longrightarrow>
   acceptWaveform st
     = acc0 @ map (\<lambda>j. resampled (frameAt stream j)) [0..<length stream div TARGET_SAMPLE_RATE] \<Longrightarrow>
   audioBuffer (foldl pushSamples st pushes)
     = drop (length (stream @ concat pushes) div TARGET_SAMPLE_RATE * TARGET_SAMPLE_RATE)
         (stream @ concat pushes)
   \<and> acceptWaveform (foldl pushSamples st pushes)
     = acc0 @ map (\<lambda>j. resampled (frameAt (stream @ concat pushes) j))
                [0..<length (stream @ concat pushes) div TARGET_SAMPLE_RATE]"
proof (induction pushes arbitrary: st stream)
  case Nil
  then show ?case by simp
next
  case (Cons xs pushes)
  from Cons.IH [OF push_inv [OF Cons.prems, of xs]]
  show ?case by simp
qed

lemma pushes_fresh:
  assumes "audioBuffer st = []"
  shows "audioBuffer (foldl pushSamples st pushes)
     = drop (length (concat pushes) div TARGET_SAMPLE_RATE * TARGET_SAMPLE_RATE) (concat pushes)"
    and "acceptWaveform (foldl pushSamples st pushes)
     = acceptWaveform st @ map (\<lambda>j. resampled (frameAt (concat pushes) j))
                [0..<length (concat pushes) div TARGET_SAMPLE_RATE]"
  using pushes_inv [of st "[]" "acceptWaveform st" pushes] assms by simp_all

lemma concat_replicates:
  "concat (map (\<lambda>m. replicate m v) ms) = replicate (sum_list ms) v"
  by (induction ms) (simp_all add: replicate_add)

lemma frameAt_constant:
  assumes "Suc j * TARGET_SAMPLE_RATE \<le> M"
  shows "frameAt (replicate M v) j = replicate TARGET_SAMPLE_RATE v"
proof -
  from assms have "TARGET_SAMPLE_RATE \<le> M - j * TARGET_SAMPLE_RATE" by simp
  then show ?thesis by (simp add: frameAt_def min_def)
qed

lemma constant_stream_frames:
  assumes "audioBuffer st = []" "- 32768 \<le> v" "v \<le> 32767"
  shows "acceptWaveform (foldl pushSamples st (map (\<lambda>m. replicate m v) ms))
     = acceptWaveform st @ replicate (sum_list ms div TARGET_SAMPLE_RATE) (replicate 5805 v)"
proof -
  let ?T = TARGET_SAMPLE_RATE
  let ?k = "sum_list ms div ?T"
  have "map (\<lambda>j. resampled (frameAt (replicate (sum_list ms) v) j)) [0..<?k]
      = replicate ?k (replicate 5805 v)"
  proof (rule nth_equalityI)
    show "length (map (\<lambda>j. resampled (frameAt (replicate (sum_list ms) v) j)) [0..<?k])
        = length (replicate ?k (replicate 5805 v))"
      by simp
  next
    fix j
    assume "j < length (map (\<lambda>j. resampled (frameAt (replicate (sum_list ms) v) j)) [0..<?k])"
    then have j: "j < ?k" by simp
    then have "Suc j \<le> ?k" by simp
    then have "Suc j * ?T \<le> ?k * ?T" by (rule mult_le_mono1)
    also have "\<dots> \<le> sum_list ms" by simp
    finally have "frameAt (replicate (sum_list ms) v) j = replicate ?T v"
      by (rule frameAt_constant)
    then have "resampled (frameAt (replicate (sum_list ms) v) j) = replicate 5805 v"
      using assms(2,3) by (simp only: resampled_constant)
    with j show "map (\<lambda>j. resampled (frameAt (replicate (sum_list ms) v) j)) [0..<?k] ! j
        = replicate ?k (replicate 5805 v) ! j"
      by (simp only: nth_map_upt nth_replicate add_0 minus_nat.diff_0)
  qed
  then show ?thesis
    using pushes_fresh(2) [OF assms(1), of "map (\<lambda>m. replicate m v) ms"]
    by (simp only: concat_replicates length_replicate)
qed

text \<open>
  Claim C8, as stated, fails.  The frame size of the accumulator is
  \<open>TARGET_SAMPLE_RATE\<close>, 16000 samples; after a push of 16000 samples the recogniser
  has received one array, and it holds 5805 samples: every slice is resampled before
  it is handed over.
\<close>

theorem short_frame_counterexample:
  "TARGET_SAMPLE_RATE = 16000
   \<and> map length (acceptWaveform (foldl pushSamples freshSrtin [replicate 16000 0])) = [5805]"
proof -
  have T: "TARGET_SAMPLE_RATE = 16000" by (simp add: TARGET_SAMPLE_RATE_def)
  define xs :: "int list" where "xs = replicate 16000 0"
  have len: "length xs = 16000" by (simp only: xs_def length_replicate)
  have f: "audioBuffer freshSrtin = []" "acceptWaveform freshSrtin = []"
    by (simp_all add: freshSrtin_def)
  have "acceptWaveform (foldl pushSamples freshSrtin [xs]) = [resampled (frameAt xs 0)]"
    using pushes_fresh(2) [OF f(1), of "[xs]"] by (simp add: f(2) T len)
  moreover have "length (frameAt xs 0) = TARGET_SAMPLE_RATE"
    by (simp add: frameAt_def T len)
  ultimately have "map length (acceptWaveform (foldl pushSamples freshSrtin [xs])) = [5805]"
    by (simp add: length_resampled)
  with T show ?thesis unfolding xs_def by (intro conjI)
qed

text \<open>
  Claim C8, amended.  Starting from an empty accumulator, after any sequence of pushes
  of \<open>total\<close> samples the recogniser has received exactly \<open>total div 16000\<close> further
  arrays, in arrival order: the \<open>j\<close>-th is the resampling of the \<open>j\<close>-th slice of 16000
  samples of the pushed stream.  Every slice cut from the accumulator is exactly 16000
  samples long, and every array handed over holds 5805 samples.  The accumulator keeps
  the rest of the stream, \<open>total mod 16000\<close> samples, fewer than 16000; as this holds for
  every sequence of pushes, it holds after each push.
\<close>

theorem frames_cut_then_resampled:
  "audioBuffer st = [] \<longrightarrow>
     acceptWaveform (foldl pushSamples st pushes)
       = acceptWaveform st @ map (\<lambda>j. resampled (frameAt (concat pushes) j))
                               [0..<length (concat pushes) div TARGET_SAMPLE_RATE]
     \<and> length (acceptWaveform (foldl pushSamples st pushes))
       = length (acceptWaveform st) + length (concat pushes) div TARGET_SAMPLE_RATE
     \<and> (\<forall>j < length (concat pushes) div TARGET_SAMPLE_RATE.
          length (frameAt (concat pushes) j) = TARGET_SAMPLE_RATE
          \<and> length (resampled (frameAt (concat pushes) j)) = 5805)
     \<and> audioBuffer (foldl pushSamples st pushes)
       = drop (length (concat pushes) div TARGET_SAMPLE_RATE * TARGET_SAMPLE_RATE) (concat pushes)
     \<and> length (audioBuffer (foldl pushSamples st pushes))
       = length (concat pushes) mod TARGET_SAMPLE_RATE
     \<and> length (audioBuffer (foldl pushSamples st pushes)) < TARGET_SAMPLE_RATE
     \<and> TARGET_SAMPLE_RATE = 16000"
proof (intro impI conjI allI)
  assume a: "audioBuffer st = []"
  let ?T = TARGET_SAMPLE_RATE
  let ?all = "concat pushes"
  have T: "0 < ?T" by (simp add: TARGET_SAMPLE_RATE_def)
  show acc: "acceptWaveform (foldl pushSamples st pushes)
       = acceptWaveform st @ map (\<lambda>j. resampled (frameAt ?all j)) [0..<length ?all div ?T]"
    using a by (rule pushes_fresh(2))
  show "length (acceptWaveform (foldl pushSamples st pushes))
       = length (acceptWaveform st) + length ?all div ?T"
    unfolding acc by simp
  show buf: "audioBuffer (foldl pushSamples st pushes) = drop (length ?all div ?T * ?T) ?all"
    using a by (rule pushes_fresh(1))
  show len: "length (audioBuffer (foldl pushSamples st pushes)) = length ?all mod ?T"
    unfolding buf by (simp add: modulo_nat_def)
  show "length (audioBuffer (foldl pushSamples st pushes)) < ?T"
    unfolding len using T by simp
  show "?T = 16000" by (simp add: TARGET_SAMPLE_RATE_def)
  fix j
  assume "j < length ?all div ?T"
  then have "Suc j \<le> length ?all div ?T" by simp
  then have "Suc j * ?T \<le> length ?all div ?T * ?T" by (rule mult_le_mono1)
  also have "\<dots> \<le> length ?all" by simp
  finally have "length (frameAt ?all j) = ?T" by (rule frameAt_length)
  then show "length (frameAt ?all j) = ?T" "length (resampled (frameAt ?all j)) = 5805"
    by (simp_all add: length_resampled)
qed

text \<open>Two pushes of 10000 samples: one array handed over, 4000 samples kept.\<close>

theorem frames_cut_then_resampled_witness:
  "length (acceptWaveform (foldl pushSamples freshSrtin [replicate 10000 1, replicate 10000 2])) = 1
   \<and> length (audioBuffer (foldl pushSamples freshSrtin [replicate 10000 1, replicate 10000 2]))
       = 4000"
proof -
  define pushes :: "int list list" where "pushes = [replicate 10000 1, replicate 10000 2]"
  have f: "audioBuffer freshSrtin = []" "length (acceptWaveform freshSrtin) = 0"
    by (simp_all add: freshSrtin_def)
  have "length (concat pushes) = 10000 + 10000"
    unfolding pushes_def by (simp only: concat.simps length_append length_replicate list.size)
  then have l: "length (concat pushes) div TARGET_SAMPLE_RATE = 1"
    "length (concat pushes) mod TARGET_SAMPLE_RATE = 4000"
    by (simp_all add: TARGET_SAMPLE_RATE_def)
  note t = frames_cut_then_resampled [of freshSrtin pushes, THEN mp, OF f(1)]
  have B: "length (acceptWaveform (foldl pushSamples freshSrtin pushes))
      = length (acceptWaveform freshSrtin) + length (concat pushes) div TARGET_SAMPLE_RATE"
    and E: "length (audioBuffer (foldl pushSamples freshSrtin pushes))
      = length (concat pushes) mod TARGET_SAMPLE_RATE"
    using t by blast+
  have "length (acceptWaveform (foldl pushSamples freshSrtin pushes)) = 1"
    using B [unfolded l f(2)] by simp
  moreover have "length (audioBuffer (foldl pushSamples freshSrtin pushes)) = 4000"
    using E [unfolded l] .
  ultimately show ?thesis unfolding pushes_def by (intro conjI)
qed

section \<open>Resampling keeps no history; constant chunks\<close>

lemma handler_interpolates:
  assumes "length xs < 2 ^ 32" "i < nat ((320 * int (length xs) + 441) div 882)"
  shows "let position = fl (of_nat i * handlerRatio);
             index = nat \<lfloor>position\<rfloor>;
             fraction = fl (position - of_nat index)
         in index + 1 < length xs
            \<and> downsampleAt xs handlerRatio i
              = toInt16 (math_round (fl (fl (of_int (xs ! index) * fl (1 - fraction))
                                         + fl (of_int (xs ! (index + 1)) * fraction))))"
proof -
  from assms have "i < nat (math_round (fl (of_nat (length xs) / handlerRatio)))"
    by (simp only: handler_length)
  from handler_index [OF assms(1) this] show ?thesis
    by (simp add: downsampleAt_def Let_def)
qed

lemma floor_one_numeral [simp]: "\<lfloor>1 / numeral b :: rat\<rfloor> = 1 div numeral b"
  using floor_divide_of_int_eq [of 1 "numeral b", where ?'a = rat] by simp

lemma last_frame_positions:
  assumes "i < 5805"
  shows "nat \<lfloor>fl (of_nat i * handlerRatio)\<rfloor> + 1 < 15999"
proof -
  define p where "p = rat_of_nat i * handlerRatio"
  define e :: rat where "e = 441 / 160 + 1 / 2 ^ 50"
  define c :: rat where "c = 5804 * e"
  have r: "0 < handlerRatio" using handlerRatio_bounds(1) by simp
  have "rat_of_nat i \<le> 5804" using assms by simp
  then have "p \<le> 5804 * handlerRatio" unfolding p_def using r by (intro mult_right_mono) simp_all
  moreover have "handlerRatio \<le> e" unfolding e_def using handlerRatio_near by linarith
  ultimately have pc: "p \<le> c" unfolding c_def by linarith
  have p0: "0 \<le> p" unfolding p_def using r by simp
  have c1: "c \<le> 15997 + 1 / 2" unfolding c_def e_def by simp
  from pc p0 c1 have "\<bar>p\<bar> \<le> 15998" by linarith
  from fl_error_le [OF this] tiny(1)
  have "\<bar>fl p - p\<bar> \<le> 15998 / 2 ^ 53 + 1 / 2 ^ 60" by linarith
  moreover have "(15998::rat) / 2 ^ 53 + 1 / 2 ^ 60 \<le> 1 / 4" by simp
  ultimately have "fl p < 15998" using pc c1 by linarith
  then have "fl p < of_int 15998" by simp
  then have "\<lfloor>fl p\<rfloor> < 15998" by (simp only: floor_less_iff)
  moreover have "0 \<le> fl p" using p0 by (rule fl_nonneg)
  then have "0 \<le> \<lfloor>fl p\<rfloor>" by simp
  ultimately show ?thesis unfolding p_def by linarith
qed

lemma fl_160_147: "fl (160 / 147) = 4901877145437275 / 4503599627370496"
proof -
  have "fl (160 / 147) = of_int (round_half_even (160 / 147 / 2 powi (- 52))) * 2 powi (- 52)"
    by (rule fl_eval) (simp_all add: power_int_minus_divide)
  also have "\<dots> = 4901877145437275 / 4503599627370496"
    by (simp add: power_int_minus_divide round_half_even_def Let_def)
  finally show ?thesis .
qed

lemma length_240: "nat (math_round (fl (of_nat 240 / fl (of_nat 12000 / of_nat 11025)))) = 220"
proof -
  have a: "(of_nat 12000 / of_nat 11025 :: rat) = 160 / 147" by simp
  define q :: rat where "q = 240 / (4901877145437275 / 4503599627370496)"
  have "fl q = of_int (round_half_even (q / 2 powi (- 45))) * 2 powi (- 45)"
    unfolding q_def by (rule fl_eval) (simp_all add: power_int_minus_divide)
  also have "\<dots> = 7758154045587455 / 35184372088832"
    unfolding q_def by (simp add: power_int_minus_divide round_half_even_def Let_def)
  finally have "fl q = 7758154045587455 / 35184372088832" .
  moreover have "math_round (7758154045587455 / 35184372088832) = 220"
    by (simp add: math_round_def)
  ultimately have "math_round (fl q) = 220" by (simp only:)
  then show ?thesis unfolding a fl_160_147 q_def by simp
qed

text \<open>
  Claim C3, as stated, fails.  After the handler has consumed a chunk, the state holds
  nothing of it: a push of 15999 zeros followed by the sample 1234 onto the script as
  loaded leaves the state as loaded, but for the one array handed to the recogniser,
  5805 zeros; the accumulator is empty and the sample 1234 is stored nowhere.  And in a
  call where a position does reach past the last input sample, which needs a ratio the
  script itself never passes (here 8000 Hz to 16000 Hz, position 2.5 in a chunk of
  three), the value is the last sample of the chunk, 30: clamped, not interpolated.
\<close>

theorem resample_uses_history_counterexample:
  "pushSamples freshSrtin (replicate 15999 0 @ [1234])
     = freshSrtin\<lparr>acceptWaveform := [replicate 5805 0]\<rparr>
   \<and> downsampleAudio [10, 20, 30] 8000 16000 = Inr [10, 15, 20, 25, 30, 30]"
proof -
  define zs :: "int list" where "zs = replicate 15999 0"
  define out :: "int list" where "out = replicate 5805 0"
  define xs where "xs = zs @ [1234]"
  have zl: "length zs = 15999" by (simp only: zs_def length_replicate)
  have z0: "zs ! j = 0" if "j < 15999" for j
    unfolding zs_def using that by (simp only: nth_replicate)
  have xl: "length xs = TARGET_SAMPLE_RATE" by (simp add: xs_def zl TARGET_SAMPLE_RATE_def)
  have m: "nat (math_round (fl (of_nat (length xs) / handlerRatio))) = 5805"
    using handler_length [of 16000] by (simp add: xl TARGET_SAMPLE_RATE_def)
  have "map (downsampleAt xs handlerRatio) [0..<5805] = out"
  proof (rule nth_equalityI)
    show "length (map (downsampleAt xs handlerRatio) [0..<5805]) = length out"
      by (simp only: out_def length_replicate length_map length_upt minus_nat.diff_0)
  next
    fix i
    assume "i < length (map (downsampleAt xs handlerRatio) [0..<5805])"
    then have i: "i < 5805" by simp
    define k where "k = nat \<lfloor>fl (of_nat i * handlerRatio)\<rfloor>"
    from last_frame_positions [OF i] have k: "k + 1 < 15999" by (simp add: k_def)
    then have "xs ! k = 0" "xs ! (k + 1) = 0" "k + 1 < length xs"
      by (simp_all add: xs_def nth_append zl z0)
    then have "downsampleAt xs handlerRatio i = 0"
      by (simp add: downsampleAt_def Let_def math_round_def toInt16_def flip: k_def)
    with i show "map (downsampleAt xs handlerRatio) [0..<5805] ! i = out ! i"
      by (simp only: out_def nth_replicate nth_map_upt add_0 minus_nat.diff_0)
  qed
  then have res: "resampled xs = out" by (simp only: resampled_eq m)
  have fr: "frameAt xs 0 = xs" by (simp add: frameAt_def xl)
  have k1: "length (audioBuffer freshSrtin @ xs) div TARGET_SAMPLE_RATE = 1"
    by (simp add: freshSrtin_def xl TARGET_SAMPLE_RATE_def)
  have u: "[0..<1] = [0]" by simp
  have "pushSamples freshSrtin xs = freshSrtin\<lparr>acceptWaveform := [out]\<rparr>"
    unfolding pushSamples_state [of freshSrtin xs] k1 u
    by (simp add: freshSrtin_def fr res xl)
  then have a: "pushSamples freshSrtin (replicate 15999 0 @ [1234])
      = freshSrtin\<lparr>acceptWaveform := [replicate 5805 0]\<rparr>"
    unfolding xs_def zs_def out_def .
  have v: "[0..<6] = [0, 1, 2, 3, 4, 5]" by (simp add: upt_rec)
  have d: "downsampleAudio [10, 20, 30] 8000 16000 =
      Inr (map (downsampleAt [10, 20, 30] (1 / 2)) [0, 1, 2, 3, 4, 5])"
    by (simp add: downsampleAudio_def Let_def math_round_def v fl_numeral)
  have e: "map (downsampleAt [10, 20, 30] (1 / 2)) [0, 1, 2, 3, 4, 5] = [10, 15, 20, 25, 30, 30]"
    by (simp add: downsampleAt_def Let_def math_round_def toInt16_def fl_numeral fl_half_numeral)
  have b: "downsampleAudio [10, 20, 30] 8000 16000 = Inr [10, 15, 20, 25, 30, 30]"
    by (simp only: d e)
  from a b show ?thesis by (rule conjI)
qed

text \<open>
  Claim C3, amended.  In the call that the script makes, at 44100 Hz to 16000 Hz with
  the ratio rounded to a double, a chunk of fewer than \<open>2 ^ 32\<close> samples gives
  \<open>(320 * length + 441) div 882\<close> outputs, and no output position reaches past the last
  input sample: both samples that an output reads, at \<open>index\<close> and \<open>index + 1\<close>, lie in
  the current chunk, and the output is their interpolation, every operation rounded to
  a double.  In a call at any other ratio, an output whose position has no input
  sample after it in the chunk (\<open>index + 1\<close> is not below the chunk length) is the last
  sample of the chunk itself, clamped, with no interpolation.  No history tail is read
  or stored: a push changes the accumulator, which keeps the samples not yet cut into
  a slice of 16000 and nothing of the slices consumed, the arrays handed to the
  recogniser and, while recording, the recording; every array handed over is a
  function of its own slice alone.
\<close>

theorem resample_clamps_without_history:
  "(length xs < 2 ^ 32 \<longrightarrow>
      downsampleAudio xs INPUT_SAMPLE_RATE TARGET_SAMPLE_RATE
        = Inr (map (downsampleAt xs handlerRatio)
                 [0..<nat ((320 * int (length xs) + 441) div 882)])
      \<and> (\<forall>i < nat ((320 * int (length xs) + 441) div 882).
            let position = fl (of_nat i * handlerRatio);
                index = nat \<lfloor>position\<rfloor>;
                fraction = fl (position - of_nat index)
            in index + 1 < length xs
               \<and> downsampleAt xs handlerRatio i
                 = toInt16 (math_round (fl (fl (of_int (xs ! index) * fl (1 - fraction))
                                            + fl (of_int (xs ! (index + 1)) * fraction))))))
   \<and> (nat \<lfloor>fl (of_nat k * r)\<rfloor> < length ys \<and> length ys \<le> nat \<lfloor>fl (of_nat k * r)\<rfloor> + 1 \<longrightarrow>
        downsampleAt ys r k = toInt16 (last ys))
   \<and> pushSamples st zs =
       st\<lparr>audioBuffer :=
            drop (length (audioBuffer st @ zs) div TARGET_SAMPLE_RATE * TARGET_SAMPLE_RATE)
              (audioBuffer st @ zs),
          recordingAudio :=
            (if isRecording st
             then recordingAudio st
               @ concat (map (\<lambda>j. resampled (frameAt (audioBuffer st @ zs) j))
                   [0..<length (audioBuffer st @ zs) div TARGET_SAMPLE_RATE])
             else recordingAudio st),
          acceptWaveform :=
            acceptWaveform st
            @ map (\<lambda>j. resampled (frameAt (audioBuffer st @ zs) j))
                [0..<length (audioBuffer st @ zs) div TARGET_SAMPLE_RATE]\<rparr>"
proof (intro conjI impI allI)
  assume l: "length xs < 2 ^ 32"
  show "downsampleAudio xs INPUT_SAMPLE_RATE TARGET_SAMPLE_RATE
        = Inr (map (downsampleAt xs handlerRatio)
                 [0..<nat ((320 * int (length xs) + 441) div 882)])"
    by (simp only: downsampleAudio_handler handler_length [OF l])
  fix i
  assume "i < nat ((320 * int (length xs) + 441) div 882)"
  with l show "let position = fl (of_nat i * handlerRatio);
                index = nat \<lfloor>position\<rfloor>;
                fraction = fl (position - of_nat index)
            in index + 1 < length xs
               \<and> downsampleAt xs handlerRatio i
                 = toInt16 (math_round (fl (fl (of_int (xs ! index) * fl (1 - fraction))
                                            + fl (of_int (xs ! (index + 1)) * fraction))))"
    by (rule handler_interpolates)
next
  assume "nat \<lfloor>fl (of_nat k * r)\<rfloor> < length ys \<and> length ys \<le> nat \<lfloor>fl (of_nat k * r)\<rfloor> + 1"
  then show "downsampleAt ys r k = toInt16 (last ys)"
    by (intro downsampleAt_clamped) simp_all
next
  show "pushSamples st zs =
       st\<lparr>audioBuffer :=
            drop (length (audioBuffer st @ zs) div TARGET_SAMPLE_RATE * TARGET_SAMPLE_RATE)
              (audioBuffer st @ zs),
          recordingAudio :=
            (if isRecording st
             then recordingAudio st
               @ concat (map (\<lambda>j. resampled (frameAt (audioBuffer st @ zs) j))
                   [0..<length (audioBuffer st @ zs) div TARGET_SAMPLE_RATE])
             else recordingAudio st),
          acceptWaveform :=
            acceptWaveform st
            @ map (\<lambda>j. resampled (frameAt (audioBuffer st @ zs) j))
                [0..<length (audioBuffer st @ zs) div TARGET_SAMPLE_RATE]\<rparr>"
    by (rule pushSamples_state)
qed

text \<open>
  The chunk 10, 20, 30: at the rates of the script it gives one output, read at
  indices 0 and 1; at 8000 Hz to 16000 Hz its output 5 is clamped to 30; pushed onto
  the script as loaded it stays in the accumulator.
\<close>

theorem resample_clamps_without_history_witness:
  "downsampleAudio [10, 20, 30] INPUT_SAMPLE_RATE TARGET_SAMPLE_RATE = Inr [10]
   \<and> nat \<lfloor>fl (of_nat 0 * handlerRatio)\<rfloor> + 1 < length [10, 20, 30 :: int]
   \<and> downsampleAt [10, 20, 30] (1 / 2) 5 = 30
   \<and> audioBuffer (pushSamples freshSrtin [10, 20, 30]) = [10, 20, 30]"
proof -
  note t = resample_clamps_without_history
    [where xs = "[10, 20, 30]" and k = 5 and r = "1 / 2" and ys = "[10, 20, 30]"
       and st = freshSrtin and zs = "[10, 20, 30]"]
  have L: "nat ((320 * int (length [10, 20, 30 :: int]) + 441) div 882) = 1" by simp
  have e: "downsampleAt [10, 20, 30] handlerRatio 0 = 10"
    by (simp add: downsampleAt_def Let_def math_round_def toInt16_def fl_numeral)
  have h: "nat \<lfloor>fl (of_nat 5 * (1 / 2))\<rfloor> < length [10, 20, 30 :: int]
      \<and> length [10, 20, 30 :: int] \<le> nat \<lfloor>fl (of_nat 5 * (1 / 2))\<rfloor> + 1"
    by (simp add: fl_half_numeral)
  from t have "downsampleAudio [10, 20, 30] INPUT_SAMPLE_RATE TARGET_SAMPLE_RATE
      = Inr (map (downsampleAt [10, 20, 30] handlerRatio)
               [0..<nat ((320 * int (length [10, 20, 30 :: int]) + 441) div 882)])"
    by simp
  then have a: "downsampleAudio [10, 20, 30] INPUT_SAMPLE_RATE TARGET_SAMPLE_RATE = Inr [10]"
    unfolding L by (simp add: e)
  from t have "\<forall>i < nat ((320 * int (length [10, 20, 30 :: int]) + 441) div 882).
      nat \<lfloor>fl (of_nat i * handlerRatio)\<rfloor> + 1 < length [10, 20, 30 :: int]"
    by (simp add: Let_def)
  then have b: "nat \<lfloor>fl (of_nat 0 * handlerRatio)\<rfloor> + 1 < length [10, 20, 30 :: int]"
    unfolding L by blast
  from t h have "downsampleAt [10, 20, 30] (1 / 2) 5 = toInt16 (last [10, 20, 30])"
    by blast
  then have c: "downsampleAt [10, 20, 30] (1 / 2) 5 = 30" by (simp add: toInt16_def)
  from t have "pushSamples freshSrtin [10, 20, 30] =
       freshSrtin\<lparr>audioBuffer :=
            drop (length (audioBuffer freshSrtin @ [10, 20, 30]) div TARGET_SAMPLE_RATE
                  * TARGET_SAMPLE_RATE)
              (audioBuffer freshSrtin @ [10, 20, 30]),
          recordingAudio :=
            (if isRecording freshSrtin
             then recordingAudio freshSrtin
               @ concat (map (\<lambda>j. resampled (frameAt (audioBuffer freshSrtin @ [10, 20, 30]) j))
                   [0..<length (audioBuffer freshSrtin @ [10, 20, 30]) div TARGET_SAMPLE_RATE])
             else recordingAudio freshSrtin),
          acceptWaveform :=
            acceptWaveform freshSrtin
            @ map (\<lambda>j. resampled (frameAt (audioBuffer freshSrtin @ [10, 20, 30]) j))
                [0..<length (audioBuffer freshSrtin @ [10, 20, 30]) div TARGET_SAMPLE_RATE]\<rparr>"
    by blast
  then have d: "audioBuffer (pushSamples freshSrtin [10, 20, 30]) = [10, 20, 30]"
    by (simp add: freshSrtin_def TARGET_SAMPLE_RATE_def)
  from a b c d show ?thesis by (intro conjI)
qed

text \<open>
  Claim C4, as stated, fails on the total length.  Three chunks of four samples, from
  44100 Hz to 16000 Hz, give three outputs, while \<open>round(3 * 4 / ratio)\<close> is 4; with the
  handler's chunks of 16000 samples, 45 chunks give 261225 outputs, while
  \<open>round(45 * 16000 / ratio)\<close> is 261224, in exact arithmetic and in doubles alike.  The
  length of one chunk's output is rounded from a quotient of doubles: one chunk of 240
  samples from 12000 Hz to 11025 Hz gives 220 outputs, while \<open>round(240 / ratio)\<close> is
  221 in exact arithmetic.  And not every constant comes back: the output array holds
  16-bit integers, so two samples of value 40000 give the output -25536.
\<close>

theorem constant_chunks_length_counterexample:
  "resampleChunks (replicate 3 (replicate 4 7)) 44100 16000 = Inr [7, 7, 7]
   \<and> math_round (of_nat (3 * 4) / (of_nat 44100 / of_nat 16000)) = 4
   \<and> resampleChunks (replicate 45 (replicate 16000 7)) 44100 16000 = Inr (replicate 261225 7)
   \<and> math_round (of_nat (45 * 16000) / (of_nat 44100 / of_nat 16000)) = 261224
   \<and> math_round (fl (of_nat (3 * 4) / fl (of_nat 44100 / of_nat 16000))) = 4
   \<and> math_round (fl (of_nat (45 * 16000) / fl (of_nat 44100 / of_nat 16000))) = 261224
   \<and> resampleChunks [replicate 240 7] 12000 11025 = Inr (replicate 220 7)
   \<and> math_round (of_nat 240 / (of_nat 12000 / of_nat 11025)) = 221
   \<and> downsampleAudio [40000, 40000] 44100 16000 = Inr [- 25536]"
proof -
  note rates = INPUT_SAMPLE_RATE_def TARGET_SAMPLE_RATE_def
  have p: "- 32768 \<le> (7::int)" "(7::int) \<le> 32767" by simp_all
  have n3: "3 * nat ((320 * int 4 + 441) div 882) = 3"
    and n45: "45 * nat ((320 * int 16000 + 441) div 882) = 261225"
    by simp_all
  have r3: "replicate 3 (7::int) = [7, 7, 7]" by (simp add: eval_nat_numeral)
  have "(4::nat) < 2 ^ 32" by simp
  from resampleChunks_handler_constant [OF this p, of 3, unfolded rates]
  have a: "resampleChunks (replicate 3 (replicate 4 7)) 44100 16000 = Inr [7, 7, 7]"
    by (simp only: n3 r3)
  have "(16000::nat) < 2 ^ 32" by simp
  from resampleChunks_handler_constant [OF this p, of 45, unfolded rates]
  have b: "resampleChunks (replicate 45 (replicate 16000 7)) 44100 16000
      = Inr (replicate 261225 7)"
    by (simp only: n45)
  have c: "math_round (of_nat (3 * 4) / (of_nat 44100 / of_nat 16000)) = 4"
    "math_round (of_nat (45 * 16000) / (of_nat 44100 / of_nat 16000)) = 261224"
    "math_round (of_nat 240 / (of_nat 12000 / of_nat 11025)) = 221"
    by (simp_all add: math_round_def)
  have "(3 * 4 :: nat) < 2 ^ 32" by simp
  from handler_length [OF this, unfolded handlerRatio_def rates]
  have d: "math_round (fl (of_nat (3 * 4) / fl (of_nat 44100 / of_nat 16000))) = 4"
    by simp
  have "(45 * 16000 :: nat) < 2 ^ 32" by simp
  from handler_length [OF this, unfolded handlerRatio_def rates]
  have e: "math_round (fl (of_nat (45 * 16000) / fl (of_nat 44100 / of_nat 16000))) = 261224"
    by simp
  have q: "(0::nat) < 12000" "(0::nat) < 11025" "(11025::nat) < 2 ^ 53" "(240::nat) < 2 ^ 53"
    "nat (math_round (fl (of_nat 240 / fl (of_nat 12000 / of_nat 11025)))) < 2 ^ 48"
    by (simp_all only: length_240) simp_all
  from downsampleAudio_constant [OF q p]
  have "downsampleAudio (replicate 240 7) 12000 11025 = Inr (replicate 220 7)"
    by (simp only: length_240)
  then have f: "resampleChunks [replicate 240 7] 12000 11025 = Inr (replicate 220 7)"
    by (simp only: resampleChunks.simps sum.case append_Nil2)
  have l: "nat (math_round (fl (of_nat (length [40000, 40000 :: int]) / handlerRatio))) = 1"
    using handler_length [of 2] by simp
  have u: "[0..<1] = [0]" by simp
  have v: "downsampleAt [40000, 40000] handlerRatio 0 = - 25536"
    by (simp add: downsampleAt_def Let_def math_round_def toInt16_def fl_numeral)
  have "downsampleAudio [40000, 40000] INPUT_SAMPLE_RATE TARGET_SAMPLE_RATE = Inr [- 25536]"
    unfolding downsampleAudio_handler l u by (simp add: v)
  then have g: "downsampleAudio [40000, 40000] 44100 16000 = Inr [- 25536]"
    unfolding rates .
  from a c(1) b c(2) d e f c(3) g show ?thesis by (intro conjI)
qed

text \<open>
  Claim C4, amended.  For rates and a chunk length that a double holds exactly (below
  \<open>2 ^ 53\<close>), a new length below \<open>2 ^ 48\<close> and a constant \<open>v\<close> that is a 16-bit signed
  integer (what the handler passes and what the \<open>Int16Array\<close> result can hold),
  resampling \<open>N\<close> chunks of \<open>n\<close> samples, all equal to \<open>v\<close>, gives only the value
  \<open>v\<close>, also at the chunk boundaries; the total length is \<open>N * round(n / ratio)\<close>,
  each chunk being rounded on its own, with the ratio and the quotient rounded to
  doubles.  At the rates of the script, 44100 Hz to 16000 Hz, and a
  chunk length below \<open>2 ^ 32\<close>, that length is \<open>N * ((320 * n + 441) div 882)\<close>, the
  exact rounding of \<open>n * 160 / 441\<close>.  In the handler, a stream of samples all equal to
  \<open>v\<close>, pushed in pieces of any lengths, hands the recogniser one array of 5805 samples
  \<open>v\<close> for every 16000 samples pushed.
\<close>

theorem constant_chunks_stay_constant:
  "(0 < f \<and> f < 2 ^ 53 \<and> 0 < t \<and> t < 2 ^ 53 \<and> n < 2 ^ 53
      \<and> nat (math_round (fl (of_nat n / fl (of_nat f / of_nat t)))) < 2 ^ 48
      \<and> - 32768 \<le> v \<and> v \<le> 32767 \<longrightarrow>
      resampleChunks (replicate N (replicate n v)) f t =
        Inr (replicate (N * nat (math_round (fl (of_nat n / fl (of_nat f / of_nat t))))) v))
   \<and> (n < 2 ^ 32 \<and> - 32768 \<le> v \<and> v \<le> 32767 \<longrightarrow>
        resampleChunks (replicate N (replicate n v)) INPUT_SAMPLE_RATE TARGET_SAMPLE_RATE =
          Inr (replicate (N * nat ((320 * int n + 441) div 882)) v))
   \<and> (audioBuffer st = [] \<and> - 32768 \<le> v \<and> v \<le> 32767 \<longrightarrow>
        acceptWaveform (foldl pushSamples st (map (\<lambda>m. replicate m v) ms))
          = acceptWaveform st
            @ replicate (sum_list ms div TARGET_SAMPLE_RATE) (replicate 5805 v))"
proof (intro conjI impI)
  assume "0 < f \<and> f < 2 ^ 53 \<and> 0 < t \<and> t < 2 ^ 53 \<and> n < 2 ^ 53
      \<and> nat (math_round (fl (of_nat n / fl (of_nat f / of_nat t)))) < 2 ^ 48
      \<and> - 32768 \<le> v \<and> v \<le> 32767"
  then show "resampleChunks (replicate N (replicate n v)) f t =
        Inr (replicate (N * nat (math_round (fl (of_nat n / fl (of_nat f / of_nat t))))) v)"
    by (intro resampleChunks_constant) simp_all
next
  assume "n < 2 ^ 32 \<and> - 32768 \<le> v \<and> v \<le> 32767"
  then show "resampleChunks (replicate N (replicate n v)) INPUT_SAMPLE_RATE TARGET_SAMPLE_RATE =
          Inr (replicate (N * nat ((320 * int n + 441) div 882)) v)"
    by (intro resampleChunks_handler_constant) simp_all
next
  assume "audioBuffer st = [] \<and> - 32768 \<le> v \<and> v \<le> 32767"
  then show "acceptWaveform (foldl pushSamples st (map (\<lambda>m. replicate m v) ms))
          = acceptWaveform st
            @ replicate (sum_list ms div TARGET_SAMPLE_RATE) (replicate 5805 v)"
    by (intro constant_stream_frames) simp_all
qed

text \<open>
  Three chunks of four samples of value 7, and a stream of 16000 samples of value 7
  pushed in one piece onto the script as loaded.
\<close>

theorem constant_chunks_stay_constant_witness:
  "resampleChunks (replicate 3 (replicate 4 7)) 44100 16000 = Inr (replicate 3 7)
   \<and> resampleChunks (replicate 3 (replicate 4 7)) INPUT_SAMPLE_RATE TARGET_SAMPLE_RATE
     = Inr (replicate 3 7)
   \<and> acceptWaveform (foldl pushSamples freshSrtin (map (\<lambda>m. replicate m 7) [16000]))
     = [replicate 5805 7]"
proof -
  note t = constant_chunks_stay_constant
    [where f = 44100 and t = 16000 and n = 4 and v = 7 and N = 3 and st = freshSrtin
       and ms = "[16000]"]
  have "(4::nat) < 2 ^ 32" by simp
  from handler_length [OF this, unfolded handlerRatio_def INPUT_SAMPLE_RATE_def
      TARGET_SAMPLE_RATE_def]
  have l4: "nat (math_round (fl (of_nat 4 / fl (of_nat 44100 / of_nat 16000)))) = 1"
    by simp
  have h1: "(0::nat) < 44100 \<and> (44100::nat) < 2 ^ 53 \<and> (0::nat) < 16000 \<and> (16000::nat) < 2 ^ 53
      \<and> (4::nat) < 2 ^ 53
      \<and> nat (math_round (fl (of_nat 4 / fl (of_nat 44100 / of_nat 16000)))) < 2 ^ 48
      \<and> - 32768 \<le> (7::int) \<and> (7::int) \<le> 32767"
    unfolding l4 by simp
  have h2: "(4::nat) < 2 ^ 32 \<and> - 32768 \<le> (7::int) \<and> (7::int) \<le> 32767" by simp
  have h3: "audioBuffer freshSrtin = [] \<and> - 32768 \<le> (7::int) \<and> (7::int) \<le> 32767"
    by (simp add: freshSrtin_def)
  have n3: "3 * nat ((320 * int 4 + 441) div 882) = 3" by simp
  have k: "sum_list [16000] div TARGET_SAMPLE_RATE = 1" by (simp add: TARGET_SAMPLE_RATE_def)
  have r1: "replicate 1 x = [x]" for x :: "int list" by simp
  have acc: "acceptWaveform freshSrtin = []" by (simp add: freshSrtin_def)
  from t h1 have "resampleChunks (replicate 3 (replicate 4 7)) 44100 16000
     = Inr (replicate (3 * nat (math_round (fl (of_nat 4 / fl (of_nat 44100 / of_nat 16000))))) 7)"
    by blast
  then have a: "resampleChunks (replicate 3 (replicate 4 7)) 44100 16000 = Inr (replicate 3 7)"
    by (simp only: l4 mult_1_right)
  from t h2 have "resampleChunks (replicate 3 (replicate 4 7)) INPUT_SAMPLE_RATE TARGET_SAMPLE_RATE
     = Inr (replicate (3 * nat ((320 * int 4 + 441) div 882)) 7)"
    by blast
  then have b: "resampleChunks (replicate 3 (replicate 4 7)) INPUT_SAMPLE_RATE TARGET_SAMPLE_RATE
     = Inr (replicate 3 7)"
    by (simp only: n3)
  from t h3 have "acceptWaveform (foldl pushSamples freshSrtin (map (\<lambda>m. replicate m 7) [16000]))
     = acceptWaveform freshSrtin
       @ replicate (sum_list [16000] div TARGET_SAMPLE_RATE) (replicate 5805 7)"
    by blast
  then have c: "acceptWaveform (foldl pushSamples freshSrtin (map (\<lambda>m. replicate m 7) [16000]))
     = [replicate 5805 7]"
    by (simp only: k r1 acc append_Nil)
  from a b c show ?thesis by (intro conjI)
qed

end
